theory Spec2Isabelle
  imports
    Complex_Main
    "HOL-Library.Log_Nat"
    "HOL-Library.Multiset"
    "HOL-Library.Sublist"
    "HOL-Library.Char_ord"
    "HOL-Library.List_Lexorder"
    "HOL-Library.Product_Lexorder"
begin

section \<open>Stratified train/dev/test split allocator (scripts/create\_splits.py)\<close>

text \<open>
  The script loads a pool of labelled items, groups them by the pair
  (difficulty\_level, table), computes per-group integer counts for train, dev and test,
  shuffles every group with a generator seeded by \<open>SEED\<close>, slices the shuffled
  identifiers and finally filters the pool, in its original order, by membership.

  Python integers are modelled as \<open>int\<close>. Python floats are IEEE-754 binary64 numbers;
  every finite one is a rational, so a float is modelled by the rational it denotes and each
  float operation by the exact operation followed by rounding to the nearest binary64 value,
  ties to even. Labels are strings; a field that is absent from an item is \<open>None\<close>.
\<close>

subsection \<open>Python floats\<close>

definition pow2 :: "int \<Rightarrow> rat" where
  "pow2 e = (if 0 \<le> e then 2 ^ nat e else 1 / 2 ^ nat (- e))"

text \<open>Python's \<open>round(x)\<close> on a float: nearest integer, a tie goes to the even one.\<close>

definition py_round :: "rat \<Rightarrow> int" where
  "py_round x =
     (let f = \<lfloor>x\<rfloor>; r = x - of_int f
      in if r < 1 / 2 then f else if 1 / 2 < r then f + 1 else if even f then f else f + 1)"

text \<open>The binary exponent of a non-zero rational: \<open>2 ^ e \<le> |x| < 2 ^ (e + 1)\<close>.\<close>

definition expo :: "rat \<Rightarrow> int" where
  "expo x =
     (let pq = quotient_of \<bar>x\<bar>; d = bitlen (fst pq) - bitlen (snd pq)
      in if pow2 d \<le> \<bar>x\<bar> then d else d - 1)"

text \<open>
  Rounding to binary64: 53 significant bits, so the spacing of the representable numbers
  around \<open>x\<close> is \<open>2 ^ (e - 52)\<close>; below \<open>2 ^ (-1022)\<close> the spacing stays at
  \<open>2 ^ (-1074)\<close>. Overflow to infinity is not represented: the products formed by the
  script are a list length (below \<open>2 ^ 53\<close>) times a configured fraction.
\<close>

definition fl :: "rat \<Rightarrow> rat" where
  "fl x =
     (if x = 0 then 0
      else let u = pow2 (max (expo x) (- 1022) - 52)
           in of_int (py_round (x / u)) * u)"

text \<open>\<open>g * FRAC\<close> with \<open>g\<close> an integer: the integer is converted to a float first.\<close>

definition fmul :: "int \<Rightarrow> rat \<Rightarrow> rat" where
  "fmul g f = fl (fl (of_int g) * f)"

text \<open>\<open>x - k\<close> with \<open>x\<close> a float and \<open>k\<close> an integer.\<close>

definition fsub :: "rat \<Rightarrow> int \<Rightarrow> rat" where
  "fsub x k = fl (x - fl (of_int k))"

subsection \<open>Data model\<close>

datatype error = KeyError | ZeroDivisionError | AssertionError

record ('i, 'p) item =
  item_id :: 'i
  difficulty_level :: "string option"
  table :: "string option"
  payload :: 'p

type_synonym key = "string \<times> string"

record config =
  SEED :: int
  TRAIN_FRAC :: rat
  DEV_FRAC :: rat
  TEST_FRAC :: rat

text \<open>The constants of the script: \<open>0.70\<close> and \<open>0.15\<close> as binary64 numbers.\<close>

definition default_config :: config where
  "default_config =
     \<lparr>SEED = 42,
      TRAIN_FRAC = 3152519739159347 / 4503599627370496,
      DEV_FRAC = 5404319552844595 / 36028797018963968,
      TEST_FRAC = 5404319552844595 / 36028797018963968\<rparr>"

record alloc =
  size_g :: int
  ideal_train :: rat
  ideal_dev :: rat
  train :: int
  dev :: int
  test :: int

text \<open>
  A Python dict keeps its keys in insertion order and the script iterates over its dicts,
  so \<open>groups\<close> and \<open>group_alloc\<close> are association lists in insertion order.
\<close>

type_synonym 'i groups = "(key \<times> 'i list) list"
type_synonym galloc = "(key \<times> alloc) list"

datatype split = Train | Dev

fun cur :: "split \<Rightarrow> alloc \<Rightarrow> int" where
  "cur Train v = train v"
| "cur Dev v = dev v"

fun ideal :: "split \<Rightarrow> alloc \<Rightarrow> rat" where
  "ideal Train v = ideal_train v"
| "ideal Dev v = ideal_dev v"

subsection \<open>Grouping by (difficulty, table)\<close>

fun append_id :: "key \<Rightarrow> 'i \<Rightarrow> 'i groups \<Rightarrow> 'i groups" where
  "append_id k i [] = [(k, [i])]"
| "append_id k i ((k', ids) # gs) =
     (if k' = k then (k', ids @ [i]) # gs else (k', ids) # append_id k i gs)"

fun group_items :: "('i, 'p) item list \<Rightarrow> 'i groups \<Rightarrow> error + 'i groups" where
  "group_items [] groups = Inr groups"
| "group_items (it # items) groups =
     (case difficulty_level it of
        None \<Rightarrow> Inl KeyError
      | Some d \<Rightarrow>
          (case table it of
             None \<Rightarrow> Inl KeyError
           | Some t \<Rightarrow> group_items items (append_id (d, t) (item_id it) groups)))"

subsection \<open>Floor-based allocation per group\<close>

definition floor_alloc :: "config \<Rightarrow> int \<Rightarrow> alloc" where
  "floor_alloc cfg g =
     (let it = fmul g (TRAIN_FRAC cfg);
          idv = fmul g (DEV_FRAC cfg);
          f_train = \<lfloor>it\<rfloor>;
          f_dev = \<lfloor>idv\<rfloor>;
          f_test = g - f_train - f_dev
      in \<lparr>size_g = g, ideal_train = it, ideal_dev = idv,
          train = f_train, dev = f_dev, test = f_test\<rparr>)"

definition initial_alloc :: "config \<Rightarrow> 'i groups \<Rightarrow> galloc" where
  "initial_alloc cfg groups = map (\<lambda>(k, ids). (k, floor_alloc cfg (int (length ids)))) groups"

subsection \<open>Deficit correction (\<open>adjust_for_target\<close>)\<close>

definition total :: "split \<Rightarrow> galloc \<Rightarrow> int" where
  "total s ga = sum_list (map (\<lambda>(k, v). cur s v) ga)"

fun set_cur :: "split \<Rightarrow> int \<Rightarrow> alloc \<Rightarrow> alloc" where
  "set_cur Train x v = v\<lparr>train := x\<rparr>"
| "set_cur Dev x v = v\<lparr>dev := x\<rparr>"

text \<open>
  \<open>v[split_key] += c\<close> followed by
  \<open>v['test'] = v['size'] - v['train'] - v['dev']\<close>.
\<close>

definition add_units :: "split \<Rightarrow> int \<Rightarrow> alloc \<Rightarrow> alloc" where
  "add_units s c v =
     (let v' = set_cur s (cur s v + c) v
      in v'\<lparr>test := size_g v' - train v' - dev v'\<rparr>)"

definition update_group :: "key \<Rightarrow> (alloc \<Rightarrow> alloc) \<Rightarrow> galloc \<Rightarrow> galloc" where
  "update_group k f ga = map (\<lambda>(k', v). if k' = k then (k', f v) else (k', v)) ga"

text \<open>
  The walk over the ranked list. The capacity stored in \<open>fracs\<close> was computed before
  the walk; every key occurs once in the list.
\<close>

fun walk :: "split \<Rightarrow> (rat \<times> key \<times> int) list \<Rightarrow> int \<Rightarrow> galloc \<Rightarrow> galloc \<times> int" where
  "walk s [] deficit ga = (ga, deficit)"
| "walk s ((fr, k, cap) # fracs) deficit ga =
     (if deficit > 0 then
        (if cap > 0 then walk s fracs (deficit - 1) (update_group k (add_units s 1) ga)
         else walk s fracs deficit ga)
      else (ga, deficit))"

text \<open>
  The round-robin fallback: \<open>while deficit > 0\<close> with \<open>idx\<close> counting up. The loop
  has no bound of its own, so not returning is the value \<open>None\<close>. With no group at all,
  \<open>idx % len(keys)\<close> divides by zero. \<open>keys[i]\<close> is the key of the \<open>i\<close>-th entry
  of the dict.
\<close>

partial_function (option) round_robin ::
  "split \<Rightarrow> nat \<Rightarrow> int \<Rightarrow> galloc \<Rightarrow> (error + galloc) option" where
  "round_robin s idx deficit ga =
     (if deficit > 0 then
        (if length ga = 0 then Some (Inl ZeroDivisionError)
         else
           (if cur s (snd (ga ! (idx mod length ga))) < size_g (snd (ga ! (idx mod length ga)))
            then round_robin s (idx + 1) (deficit - 1)
                   (ga[idx mod length ga :=
                        (fst (ga ! (idx mod length ga)),
                         add_units s 1 (snd (ga ! (idx mod length ga))))])
            else round_robin s (idx + 1) deficit ga))
      else Some (Inr ga))"

declare round_robin.simps [code]

definition ranked :: "split \<Rightarrow> galloc \<Rightarrow> (rat \<times> key \<times> int) list" where
  "ranked s ga =
     sort_key (\<lambda>(fr, k, cap). - fr)
       (map (\<lambda>(k, v). (fsub (ideal s v) (cur s v), k, size_g v - train v - dev v)) ga)"

definition adjust_for_target :: "split \<Rightarrow> int \<Rightarrow> galloc \<Rightarrow> (error + galloc) option" where
  "adjust_for_target s target_total ga =
     (let current_total = total s ga;
          deficit = target_total - current_total
      in if deficit = 0 then Some (Inr ga)
         else (case walk s (ranked s ga) deficit ga of
                 (ga', deficit') \<Rightarrow>
                   if deficit' > 0 then round_robin s 0 deficit' ga' else Some (Inr ga')))"

text \<open>The two passes, train first: the state just before the final reconciliation.\<close>

definition deficit_correction :: "int \<Rightarrow> int \<Rightarrow> galloc \<Rightarrow> (error + galloc) option" where
  "deficit_correction target_train target_dev ga =
     (case adjust_for_target Train target_train ga of
        None \<Rightarrow> None
      | Some (Inl e) \<Rightarrow> Some (Inl e)
      | Some (Inr ga') \<Rightarrow> adjust_for_target Dev target_dev ga')"

subsection \<open>Final reconciliation\<close>

text \<open>
  \<open>for k, v in group_alloc.items()\<close>: \<open>seen\<close> holds the entries already visited,
  the third list the entries still to visit; \<open>v\<close> is the entry itself, so the update
  of \<open>group_alloc[k]\<close> is an update of \<open>v\<close>.
\<close>

fun reconcile :: "split \<Rightarrow> int \<Rightarrow> galloc \<Rightarrow> galloc \<Rightarrow> int \<Rightarrow> galloc" where
  "reconcile s target seen [] diff = seen"
| "reconcile s target seen ((k, v) # rest) diff =
     (if diff = 0 then seen @ (k, v) # rest
      else
        (let can = (if diff > 0 then test v else cur s v);
             change = min \<bar>diff\<bar> can
         in if change \<le> 0 then reconcile s target (seen @ [(k, v)]) rest diff
            else
              (let v' = add_units s (if diff > 0 then change else - change) v
               in reconcile s target (seen @ [(k, v')]) rest
                    (target - total s (seen @ (k, v') # rest)))))"

definition final_reconciliation :: "int \<Rightarrow> int \<Rightarrow> galloc \<Rightarrow> galloc" where
  "final_reconciliation target_train target_dev ga =
     (let sum_train = total Train ga;
          sum_dev = total Dev ga;
          ga1 = (if sum_train \<noteq> target_train
                 then reconcile Train target_train [] ga (target_train - sum_train) else ga)
      in if sum_dev \<noteq> target_dev
         then reconcile Dev target_dev [] ga1 (target_dev - sum_dev) else ga1)"

subsection \<open>Assigning identifiers\<close>

text \<open>Python slicing \<open>xs[lo:hi]\<close>: a negative bound counts from the end, every bound is
  clipped to the list.\<close>

definition slice_index :: "nat \<Rightarrow> int \<Rightarrow> nat" where
  "slice_index n i = (if i < 0 then nat (max 0 (int n + i)) else min n (nat i))"

definition py_slice :: "'a list \<Rightarrow> int option \<Rightarrow> int option \<Rightarrow> 'a list" where
  "py_slice xs lo hi =
     (let n = length xs;
          l = (case lo of None \<Rightarrow> 0 | Some i \<Rightarrow> slice_index n i);
          h = (case hi of None \<Rightarrow> n | Some i \<Rightarrow> slice_index n i)
      in take (h - l) (drop l xs))"

text \<open>
  \<open>random.Random(SEED)\<close> and its \<open>shuffle\<close> belong to Python's library: the generator
  is a state of some type \<open>'g\<close>, \<open>shuffle\<close> returns the shuffled list and the next state.
\<close>

fun assign_ids ::
  "('g \<Rightarrow> 'i list \<Rightarrow> 'i list \<times> 'g) \<Rightarrow> galloc \<Rightarrow> 'i groups \<Rightarrow> 'g \<Rightarrow>
   'i list \<times> 'i list \<times> 'i list \<Rightarrow> error + 'i list \<times> 'i list \<times> 'i list" where
  "assign_ids shuffle ga [] rnd acc = Inr acc"
| "assign_ids shuffle ga ((k, ids) # groups) rnd (train_ids, dev_ids, test_ids) =
     (case shuffle rnd ids of
        (ids_sorted, rnd') \<Rightarrow>
          (case map_of ga k of
             None \<Rightarrow> Inl KeyError
           | Some alloc \<Rightarrow>
               (let tcount = train alloc;
                    dcount = dev alloc;
                    train_chunk = py_slice ids_sorted None (Some tcount);
                    dev_chunk = py_slice ids_sorted (Some tcount) (Some (tcount + dcount));
                    test_chunk = py_slice ids_sorted (Some (tcount + dcount)) None
                in assign_ids shuffle ga groups rnd'
                     (train_ids @ train_chunk, dev_ids @ dev_chunk, test_ids @ test_chunk))))"

subsection \<open>The script\<close>

record ('i, 'p) outputs =
  train_list :: "('i, 'p) item list"
  dev_list :: "('i, 'p) item list"
  test_list :: "('i, 'p) item list"

text \<open>\<open>{it['id']: it for it in items}\<close>: a later item replaces an earlier one.\<close>

definition id_to_item :: "('i, 'p) item list \<Rightarrow> 'i \<rightharpoonup> ('i, 'p) item" where
  "id_to_item items = map_of (rev (map (\<lambda>it. (item_id it, it)) items))"

fun lookup_all :: "('i \<rightharpoonup> 'a) \<Rightarrow> 'i list \<Rightarrow> error + 'a list" where
  "lookup_all m [] = Inr []"
| "lookup_all m (i # ids) =
     (case m i of
        None \<Rightarrow> Inl KeyError
      | Some x \<Rightarrow> (case lookup_all m ids of Inl e \<Rightarrow> Inl e | Inr xs \<Rightarrow> Inr (x # xs)))"

text \<open>\<open>[id_to_item[i] for i in all_ids if i in set(part)]\<close>\<close>

definition select :: "('i \<rightharpoonup> 'a) \<Rightarrow> 'i list \<Rightarrow> 'i list \<Rightarrow> error + 'a list" where
  "select m all_ids part = lookup_all m (filter (\<lambda>i. i \<in> set part) all_ids)"

definition target_of :: "int \<Rightarrow> rat \<Rightarrow> int" where
  "target_of n f = py_round (fmul n f)"

text \<open>Lines 35 to 122: targets, floor allocation, deficit correction, reconciliation.\<close>

definition group_allocation :: "config \<Rightarrow> int \<Rightarrow> 'i groups \<Rightarrow> (error + galloc) option" where
  "group_allocation cfg n groups =
     (let target_train = target_of n (TRAIN_FRAC cfg);
          target_dev = target_of n (DEV_FRAC cfg)
      in case deficit_correction target_train target_dev (initial_alloc cfg groups) of
           None \<Rightarrow> None
         | Some (Inl e) \<Rightarrow> Some (Inl e)
         | Some (Inr ga) \<Rightarrow> Some (Inr (final_reconciliation target_train target_dev ga)))"

text \<open>Lines 124 to 144: the shuffled assignment and the uniqueness assertion.\<close>

definition assignment ::
  "config \<Rightarrow> (int \<Rightarrow> 'g) \<Rightarrow> ('g \<Rightarrow> 'i list \<Rightarrow> 'i list \<times> 'g) \<Rightarrow> ('i, 'p) item list \<Rightarrow>
   (error + 'i list \<times> 'i list \<times> 'i list) option" where
  "assignment cfg Random shuffle items =
     (let n = int (length items)
      in case group_items items [] of
           Inl e \<Rightarrow> Some (Inl e)
         | Inr groups \<Rightarrow>
             (case group_allocation cfg n groups of
                None \<Rightarrow> None
              | Some (Inl e) \<Rightarrow> Some (Inl e)
              | Some (Inr ga) \<Rightarrow>
                  (case assign_ids shuffle ga (sort_key fst groups) (Random (SEED cfg))
                          ([], [], []) of
                     Inl e \<Rightarrow> Some (Inl e)
                   | Inr (train_ids, dev_ids, test_ids) \<Rightarrow>
                       if int (card (set train_ids \<union> set dev_ids \<union> set test_ids)) = n
                       then Some (Inr (train_ids, dev_ids, test_ids))
                       else Some (Inl AssertionError))))"

text \<open>The whole run, up to the three lists that are written out.\<close>

definition split_pool ::
  "config \<Rightarrow> (int \<Rightarrow> 'g) \<Rightarrow> ('g \<Rightarrow> 'i list \<Rightarrow> 'i list \<times> 'g) \<Rightarrow> ('i, 'p) item list \<Rightarrow>
   (error + ('i, 'p) outputs) option" where
  "split_pool cfg Random shuffle items =
     (let all_ids = map item_id items
      in case assignment cfg Random shuffle items of
           None \<Rightarrow> None
         | Some (Inl e) \<Rightarrow> Some (Inl e)
         | Some (Inr (train_ids, dev_ids, test_ids)) \<Rightarrow>
             (case select (id_to_item items) all_ids train_ids of
                Inl e \<Rightarrow> Some (Inl e)
              | Inr trl \<Rightarrow>
                  (case select (id_to_item items) all_ids dev_ids of
                     Inl e \<Rightarrow> Some (Inl e)
                   | Inr dvl \<Rightarrow>
                       (case select (id_to_item items) all_ids test_ids of
                          Inl e \<Rightarrow> Some (Inl e)
                        | Inr tel \<Rightarrow>
                            Some (Inr \<lparr>train_list = trl, dev_list = dvl, test_list = tel\<rparr>)))))"


subsection \<open>A run with the library generator as a relation\<close>

text \<open>
  For a statement about two runs the generator of the library is a relation rather than a
  function: \<open>seeded s g\<close> holds when \<open>random.Random(s)\<close> may return a generator in
  state \<open>g\<close>, and \<open>shuffled g xs (ys, g')\<close> when \<open>g.shuffle(xs)\<close> may leave the list
  as \<open>ys\<close> and the generator in state \<open>g'\<close>. Everything else in the script is computed
  by the script itself. The loop of lines 129 to 140, over the groups in sorted order:
\<close>

inductive assign_loop ::
  "('g \<Rightarrow> 'i list \<Rightarrow> 'i list \<times> 'g \<Rightarrow> bool) \<Rightarrow> galloc \<Rightarrow> 'i groups \<Rightarrow> 'g \<Rightarrow>
   'i list \<times> 'i list \<times> 'i list \<Rightarrow> error + 'i list \<times> 'i list \<times> 'i list \<Rightarrow> bool"
  for shuffled :: "'g \<Rightarrow> 'i list \<Rightarrow> 'i list \<times> 'g \<Rightarrow> bool" and ga :: galloc
where
  loop_done: "assign_loop shuffled ga [] rnd acc (Inr acc)"
| loop_missing:
    "shuffled rnd ids (ids_sorted, rnd') \<Longrightarrow> map_of ga k = None \<Longrightarrow>
     assign_loop shuffled ga ((k, ids) # groups) rnd acc (Inl KeyError)"
| loop_step:
    "shuffled rnd ids (ids_sorted, rnd') \<Longrightarrow> map_of ga k = Some alloc \<Longrightarrow>
     assign_loop shuffled ga groups rnd'
       (train_ids @ py_slice ids_sorted None (Some (train alloc)),
        dev_ids @ py_slice ids_sorted (Some (train alloc)) (Some (train alloc + dev alloc)),
        test_ids @ py_slice ids_sorted (Some (train alloc + dev alloc)) None) r \<Longrightarrow>
     assign_loop shuffled ga ((k, ids) # groups) rnd (train_ids, dev_ids, test_ids) r"

text \<open>Lines 142 to 149: the uniqueness assertion and the three lists in pool order.\<close>

definition write_out ::
  "('i, 'p) item list \<Rightarrow> 'i list \<times> 'i list \<times> 'i list \<Rightarrow> error + ('i, 'p) outputs" where
  "write_out items parts =
     (case parts of
        (train_ids, dev_ids, test_ids) \<Rightarrow>
          if int (card (set train_ids \<union> set dev_ids \<union> set test_ids)) = int (length items)
          then
            (case select (id_to_item items) (map item_id items) train_ids of
               Inl e \<Rightarrow> Inl e
             | Inr trl \<Rightarrow>
                 (case select (id_to_item items) (map item_id items) dev_ids of
                    Inl e \<Rightarrow> Inl e
                  | Inr dvl \<Rightarrow>
                      (case select (id_to_item items) (map item_id items) test_ids of
                         Inl e \<Rightarrow> Inl e
                       | Inr tel \<Rightarrow>
                           Inr \<lparr>train_list = trl, dev_list = dvl, test_list = tel\<rparr>)))
          else Inl AssertionError)"

text \<open>
  The results that a run of the script may end with: an error raised while grouping or
  allocating, an error raised in the loop, or what is reached after the loop. The
  generator is created on line 125, after the allocation.
\<close>

inductive run ::
  "(int \<Rightarrow> 'g \<Rightarrow> bool) \<Rightarrow> ('g \<Rightarrow> 'i list \<Rightarrow> 'i list \<times> 'g \<Rightarrow> bool) \<Rightarrow> config \<Rightarrow>
   ('i, 'p) item list \<Rightarrow> error + ('i, 'p) outputs \<Rightarrow> bool"
  for seeded :: "int \<Rightarrow> 'g \<Rightarrow> bool" and shuffled :: "'g \<Rightarrow> 'i list \<Rightarrow> 'i list \<times> 'g \<Rightarrow> bool"
    and cfg :: config and items :: "('i, 'p) item list"
where
  run_grouping_error:
    "group_items items [] = Inl e \<Longrightarrow> run seeded shuffled cfg items (Inl e)"
| run_allocation_error:
    "group_items items [] = Inr groups \<Longrightarrow>
     group_allocation cfg (int (length items)) groups = Some (Inl e) \<Longrightarrow>
     run seeded shuffled cfg items (Inl e)"
| run_loop_error:
    "group_items items [] = Inr groups \<Longrightarrow>
     group_allocation cfg (int (length items)) groups = Some (Inr ga) \<Longrightarrow>
     seeded (SEED cfg) rnd \<Longrightarrow>
     assign_loop shuffled ga (sort_key fst groups) rnd ([], [], []) (Inl e) \<Longrightarrow>
     run seeded shuffled cfg items (Inl e)"
| run_assigned:
    "group_items items [] = Inr groups \<Longrightarrow>
     group_allocation cfg (int (length items)) groups = Some (Inr ga) \<Longrightarrow>
     seeded (SEED cfg) rnd \<Longrightarrow>
     assign_loop shuffled ga (sort_key fst groups) rnd ([], [], []) (Inr parts) \<Longrightarrow>
     run seeded shuffled cfg items (write_out items parts)"

section \<open>Notions used in the statements\<close>

text \<open>Both configured fractions that the script reads lie between 0 and 1. Every triple of
  non-negative fractions that sums to 1 satisfies this; \<open>TEST_FRAC\<close> is never read.\<close>

definition valid_fracs :: "config \<Rightarrow> bool" where
  "valid_fracs cfg \<longleftrightarrow>
     0 \<le> TRAIN_FRAC cfg \<and> TRAIN_FRAC cfg \<le> 1 \<and> 0 \<le> DEV_FRAC cfg \<and> DEV_FRAC cfg \<le> 1"

text \<open>Every item carries both label fields.\<close>

definition fields_present :: "('i, 'p) item list \<Rightarrow> bool" where
  "fields_present items \<longleftrightarrow>
     (\<forall>it \<in> set items. difficulty_level it \<noteq> None \<and> table it \<noteq> None)"

text \<open>What is used of \<open>random.shuffle\<close>: the result is a rearrangement of the list.\<close>

definition perm_shuffle :: "('g \<Rightarrow> 'i list \<Rightarrow> 'i list \<times> 'g) \<Rightarrow> bool" where
  "perm_shuffle shuffle \<longleftrightarrow> (\<forall>g xs. mset (fst (shuffle g xs)) = mset xs)"

text \<open>An allocation record whose train and dev counts lie within the group and whose test
  count is the remainder (which may be negative).\<close>

definition wf_alloc :: "alloc \<Rightarrow> bool" where
  "wf_alloc v \<longleftrightarrow>
     0 \<le> train v \<and> train v \<le> size_g v \<and> 0 \<le> dev v \<and> dev v \<le> size_g v \<and>
     test v = size_g v - train v - dev v"

fun other :: "split \<Rightarrow> split" where
  "other Train = Dev"
| "other Dev = Train"

text \<open>What a pass for split \<open>s\<close> leaves alone: keys, sizes, ideals, the other count.\<close>

definition frame :: "split \<Rightarrow> galloc \<Rightarrow> (key \<times> int \<times> rat \<times> rat \<times> int) list" where
  "frame s ga = map (\<lambda>(k, v). (k, size_g v, ideal_train v, ideal_dev v, cur (other s) v)) ga"

definition room :: "split \<Rightarrow> galloc \<Rightarrow> int" where
  "room s ga = sum_list (map (\<lambda>(k, v). size_g v - cur s v) ga)"

definition wf_galloc :: "galloc \<Rightarrow> bool" where
  "wf_galloc ga \<longleftrightarrow> (\<forall>(k, v) \<in> set ga. wf_alloc v)"

text \<open>The capacities stored in the ranked list are those of the groups they name.\<close>

definition caps_ok :: "(rat \<times> key \<times> int) list \<Rightarrow> galloc \<Rightarrow> bool" where
  "caps_ok fracs ga \<longleftrightarrow>
     (\<forall>(fr, k, cap) \<in> set fracs. k \<in> fst ` set ga \<and>
        (\<forall>v. (k, v) \<in> set ga \<longrightarrow> cap = size_g v - train v - dev v))"


text \<open>Keys and sizes of an allocation table.\<close>

definition shape :: "galloc \<Rightarrow> (key \<times> int) list" where
  "shape ga = map (\<lambda>(k, v). (k, size_g v)) ga"

definition sizes :: "galloc \<Rightarrow> int" where
  "sizes ga = sum_list (map snd (shape ga))"


definition group_sizes :: "'i groups \<Rightarrow> (key \<times> int) list" where
  "group_sizes groups = map (\<lambda>(k, ids). (k, int (length ids))) groups"


text \<open>The counts that the assignment loop reads for the groups it visits.\<close>

definition counts :: "split \<Rightarrow> galloc \<Rightarrow> 'i groups \<Rightarrow> int" where
  "counts s ga gs = sum_list (map (\<lambda>(k, ids). case map_of ga k of None \<Rightarrow> 0 | Some v \<Rightarrow> cur s v) gs)"

text \<open>Views of a result used in the statements: the identifiers in each written list, the
  sizes of the three lists, and the three counts of every group.\<close>

definition ids_of :: "('i, 'p) outputs \<Rightarrow> 'i list \<times> 'i list \<times> 'i list" where
  "ids_of out =
     (map item_id (train_list out), map item_id (dev_list out), map item_id (test_list out))"

definition part_ids ::
  "(error + ('i, 'p) outputs) option \<Rightarrow> (error + 'i list \<times> 'i list \<times> 'i list) option" where
  "part_ids r = map_option (map_sum id ids_of) r"

definition part_sizes :: "(error + ('i, 'p) outputs) option \<Rightarrow> (int \<times> int \<times> int) option" where
  "part_sizes r =
     (case r of
        Some (Inr out) \<Rightarrow>
          Some (int (length (train_list out)), int (length (dev_list out)),
                int (length (test_list out)))
      | _ \<Rightarrow> None)"

definition view :: "galloc \<Rightarrow> (key \<times> int \<times> int \<times> int) list" where
  "view ga = map (\<lambda>(k, v). (k, train v, dev v, test v)) ga"

text \<open>No group is allotted more train and dev items than it has.\<close>

definition tests_nonneg :: "galloc \<Rightarrow> bool" where
  "tests_nonneg ga \<longleftrightarrow> (\<forall>(k, v) \<in> set ga. 0 \<le> test v)"

text \<open>The ranked walk of the dev pass meets the dev deficit by itself, so that the
  round-robin loop of that pass is not entered.\<close>

definition dev_walk_suffices :: "config \<Rightarrow> int \<Rightarrow> 'i groups \<Rightarrow> bool" where
  "dev_walk_suffices cfg n groups \<longleftrightarrow>
     (case adjust_for_target Train (target_of n (TRAIN_FRAC cfg)) (initial_alloc cfg groups) of
        Some (Inr ga1) \<Rightarrow>
          snd (walk Dev (ranked Dev ga1) (target_of n (DEV_FRAC cfg) - total Dev ga1) ga1) \<le> 0
      | _ \<Rightarrow> False)"

text \<open>The granting of one unit of split \<open>s\<close> to the groups whose key is in \<open>K\<close>.\<close>

definition grant :: "split \<Rightarrow> key set \<Rightarrow> galloc \<Rightarrow> galloc" where
  "grant s K ga = map (\<lambda>(k, v). if k \<in> K then (k, add_units s 1 v) else (k, v)) ga"

text \<open>The keys of the groups that have capacity.\<close>

definition with_capacity :: "galloc \<Rightarrow> key set" where
  "with_capacity ga = {k. \<exists>v. (k, v) \<in> set ga \<and> 0 < size_g v - train v - dev v}"

text \<open>What is used of the library in a statement about two runs: a generator created from
  a given seed is in one state, and shuffling a given list with a generator in a given
  state leaves one list and one state.\<close>

definition deterministic_library ::
  "(int \<Rightarrow> 'g \<Rightarrow> bool) \<Rightarrow> ('g \<Rightarrow> 'i list \<Rightarrow> 'i list \<times> 'g \<Rightarrow> bool) \<Rightarrow> bool" where
  "deterministic_library seeded shuffled \<longleftrightarrow>
     (\<forall>s g g'. seeded s g \<longrightarrow> seeded s g' \<longrightarrow> g = g') \<and>
     (\<forall>g xs r r'. shuffled g xs r \<longrightarrow> shuffled g xs r' \<longrightarrow> r = r')"

text \<open>The relations of a library whose generator is given by functions.\<close>

definition seeded_by :: "(int \<Rightarrow> 'g) \<Rightarrow> int \<Rightarrow> 'g \<Rightarrow> bool" where
  "seeded_by Random s g \<longleftrightarrow> g = Random s"

definition shuffled_by ::
  "('g \<Rightarrow> 'i list \<Rightarrow> 'i list \<times> 'g) \<Rightarrow> 'g \<Rightarrow> 'i list \<Rightarrow> 'i list \<times> 'g \<Rightarrow> bool" where
  "shuffled_by shuffle g xs r \<longleftrightarrow> r = shuffle g xs"

section \<open>Concrete inputs\<close>

text \<open>A stand-in for the library generator in the examples: the state counts the calls and
  \<open>shuffle\<close> reverses the list. The seed becomes the initial state.\<close>

definition rev_shuffle :: "nat \<Rightarrow> nat list \<Rightarrow> nat list \<times> nat" where
  "rev_shuffle g xs = (rev xs, g + 1)"

definition mk_item :: "nat \<Rightarrow> string \<Rightarrow> string \<Rightarrow> (nat, string) item" where
  "mk_item i d t = \<lparr>item_id = i, difficulty_level = Some d, table = Some t, payload = ''q''\<rparr>"

text \<open>The scenario of the specification: ten items, seven in (easy, production) and three in
  (hard, production).\<close>

definition easy_production :: key where
  "easy_production = (''easy'', ''production'')"

definition hard_production :: key where
  "hard_production = (''hard'', ''production'')"

definition scenario_pool :: "(nat, string) item list" where
  "scenario_pool =
     map (\<lambda>i. mk_item i ''easy'' ''production'') [1, 2, 3, 4, 5, 6, 7] @
     map (\<lambda>i. mk_item i ''hard'' ''production'') [8, 9, 10]"

definition scenario_groups :: "nat groups" where
  "scenario_groups = [(easy_production, [1, 2, 3, 4, 5, 6, 7]), (hard_production, [8, 9, 10])]"



text \<open>Fractions 0.25, 0.6875 and 0.0625 (all binary fractions, so every product is exact)
  and fourteen items: one in (easy, production), thirteen in (hard, production).\<close>

definition skew_config :: config where
  "skew_config = \<lparr>SEED = 42, TRAIN_FRAC = 1 / 4, DEV_FRAC = 11 / 16, TEST_FRAC = 1 / 16\<rparr>"

definition pool14 :: "(nat, string) item list" where
  "pool14 = mk_item 1 ''easy'' ''production'' #
     map (\<lambda>i. mk_item i ''hard'' ''production'') [2, 3, 4, 5, 6, 7, 8, 9, 10, 11, 12, 13, 14]"

definition groups14 :: "nat groups" where
  "groups14 = [(easy_production, [1]),
     (hard_production, [2, 3, 4, 5, 6, 7, 8, 9, 10, 11, 12, 13, 14])]"

text \<open>Fractions that sum to 1.25.\<close>

definition excess_config :: config where
  "excess_config = \<lparr>SEED = 42, TRAIN_FRAC = 1 / 2, DEV_FRAC = 1 / 4, TEST_FRAC = 1 / 2\<rparr>"

text \<open>A pool with an empty difficulty label, one with a missing table field, one with a
  repeated identifier.\<close>

definition empty_label_pool :: "(nat, string) item list" where
  "empty_label_pool = [mk_item 1 [] ''production'', mk_item 2 ''easy'' ''production'']"

definition missing_field_pool :: "(nat, string) item list" where
  "missing_field_pool =
     [mk_item 1 ''easy'' ''production'',
      \<lparr>item_id = 2, difficulty_level = Some ''easy'', table = None, payload = ''q''\<rparr>]"

definition duplicate_pool :: "(nat, string) item list" where
  "duplicate_pool =
     [mk_item 1 ''easy'' ''production'', mk_item 1 ''hard'' ''production'',
      mk_item 2 ''easy'' ''production'']"

text \<open>The allocation tables that the run with \<open>skew_config\<close> on \<open>pool14\<close> passes
  through: after the train pass, after the walk of the dev pass, after its round-robin
  fallback.\<close>

definition skew_after_train :: galloc where
  "skew_after_train =
     [(easy_production,
       \<lparr>size_g = 1, ideal_train = 1 / 4, ideal_dev = 11 / 16, train = 1, dev = 0, test = 0\<rparr>),
      (hard_production,
       \<lparr>size_g = 13, ideal_train = 13 / 4, ideal_dev = 143 / 16, train = 3, dev = 8, test = 2\<rparr>)]"

definition skew_after_walk :: galloc where
  "skew_after_walk =
     [(easy_production,
       \<lparr>size_g = 1, ideal_train = 1 / 4, ideal_dev = 11 / 16, train = 1, dev = 0, test = 0\<rparr>),
      (hard_production,
       \<lparr>size_g = 13, ideal_train = 13 / 4, ideal_dev = 143 / 16, train = 3, dev = 9, test = 1\<rparr>)]"

definition skew_final :: galloc where
  "skew_final =
     [(easy_production,
       \<lparr>size_g = 1, ideal_train = 1 / 4, ideal_dev = 11 / 16, train = 1, dev = 1, test = - 1\<rparr>),
      (hard_production,
       \<lparr>size_g = 13, ideal_train = 13 / 4, ideal_dev = 143 / 16, train = 3, dev = 9, test = 1\<rparr>)]"

text \<open>The result of the run on the scenario with the stand-in generator.\<close>

definition scenario_result :: "(nat, string) outputs" where
  "scenario_result =
     \<lparr>train_list = [mk_item 3 ''easy'' ''production'', mk_item 4 ''easy'' ''production'',
                    mk_item 5 ''easy'' ''production'', mk_item 6 ''easy'' ''production'',
                    mk_item 7 ''easy'' ''production'', mk_item 9 ''hard'' ''production'',
                    mk_item 10 ''hard'' ''production''],
      dev_list = [mk_item 2 ''easy'' ''production'', mk_item 8 ''hard'' ''production''],
      test_list = [mk_item 1 ''easy'' ''production'']\<rparr>"

section \<open>Properties of the float operations\<close>

lemma pow2_powi: "pow2 e = 2 powi e"
  by (simp add: pow2_def power_int_def inverse_eq_divide power_one_over)

lemma pow2_pos: "0 < pow2 e"
  by (simp add: pow2_powi zero_less_power_int)

lemma pow2_mono: "a \<le> b \<Longrightarrow> pow2 a \<le> pow2 b"
  by (simp add: pow2_powi power_int_increasing)

lemma pow2_less_cancel: "pow2 a < pow2 b \<Longrightarrow> a < b"
  using pow2_mono [of b a] by (cases "a < b") auto

lemma pow2_nat: "0 \<le> e \<Longrightarrow> pow2 e = 2 ^ nat e"
  by (simp add: pow2_def)

lemma pow2_neg: "e \<le> 0 \<Longrightarrow> pow2 e = 1 / 2 ^ nat (- e)"
  by (cases "e = 0") (simp_all add: pow2_def)

lemma pow2_diff: "pow2 (a - b) = pow2 a / pow2 b"
  by (simp add: pow2_powi power_int_diff)

lemma py_round_le: "x \<le> of_int m \<Longrightarrow> py_round x \<le> m"
proof -
  assume h: "x \<le> of_int m"
  have f: "\<lfloor>x\<rfloor> \<le> m" using h by (simp add: floor_le_iff) 
  show ?thesis
  proof (cases "\<lfloor>x\<rfloor> = m")
    case True
    have "x - of_int \<lfloor>x\<rfloor> \<le> 0" using h True by simp
    then show ?thesis using True by (simp add: py_round_def Let_def)
  next
    case False
    then have "\<lfloor>x\<rfloor> + 1 \<le> m" using f by simp
    then show ?thesis by (simp add: py_round_def Let_def)
  qed
qed

lemma py_round_ge: "of_int m \<le> x \<Longrightarrow> m \<le> py_round x"
proof -
  assume h: "of_int m \<le> x"
  then have "m \<le> \<lfloor>x\<rfloor>" by (simp add: le_floor_iff)
  then show ?thesis by (simp add: py_round_def Let_def)
qed

lemma py_round_of_int: "py_round (of_int m) = m"
  by (simp add: py_round_def)

lemma py_round_upper: "of_int (py_round x) \<le> x + 1 / 2"
  unfolding py_round_def Let_def
  apply (auto simp: not_less)
   apply linarith+
  done

lemma py_round_lower: "x - 1 / 2 \<le> of_int (py_round x)"
  unfolding py_round_def Let_def
  apply (auto simp: not_less)
  apply linarith+
  done

lemma expo_bounds:
  assumes "x \<noteq> 0"
  shows "pow2 (expo x) \<le> \<bar>x\<bar>" and "\<bar>x\<bar> < pow2 (expo x + 1)"
proof -
  obtain p q where pq: "quotient_of \<bar>x\<bar> = (p, q)" by (cases "quotient_of \<bar>x\<bar>")
  have q: "0 < q" using pq quotient_of_denom_pos by blast
  have xv: "\<bar>x\<bar> = of_int p / of_int q" using pq quotient_of_div by blast
  have "0 < \<bar>x\<bar>" using assms by simp
  then have p: "0 < p" using xv q by (simp add: zero_less_divide_iff)
  define d where "d = bitlen p - bitlen q"
  have bp: "2 ^ nat (bitlen p - 1) \<le> p" "p < 2 ^ nat (bitlen p)" using bitlen_bounds [OF p] by auto
  have bq: "2 ^ nat (bitlen q - 1) \<le> q" "q < 2 ^ nat (bitlen q)" using bitlen_bounds [OF q] by auto
  have bp1: "1 \<le> bitlen p" using p by (simp add: bitlen_alt_def)
  have bq1: "1 \<le> bitlen q" using q by (simp add: bitlen_alt_def)
  have P1: "pow2 (bitlen p - 1) \<le> of_int p"
    using bp(1) bp1 by (simp add: pow2_nat)
  have P2: "of_int p < pow2 (bitlen p)"
    using bp(2) bp1 by (simp add: pow2_nat)
  have Q1: "pow2 (bitlen q - 1) \<le> of_int q"
    using bq(1) bq1 by (simp add: pow2_nat)
  have Q2: "of_int q < pow2 (bitlen q)"
    using bq(2) bq1 by (simp add: pow2_nat)
  have qr: "(0::rat) < of_int q" using q by simp
  have up: "\<bar>x\<bar> < pow2 (d + 1)"
  proof -
    have "\<bar>x\<bar> < pow2 (bitlen p) / of_int q" unfolding xv using P2 qr by (simp add: divide_strict_right_mono)
    also have "\<dots> \<le> pow2 (bitlen p) / pow2 (bitlen q - 1)"
      using Q1 pow2_pos [of "bitlen q - 1"] pow2_pos [of "bitlen p"] by (simp add: frac_le)
    also have "\<dots> = pow2 (d + 1)" unfolding d_def pow2_diff [symmetric] by (simp add: algebra_simps)
    finally show ?thesis .
  qed
  have lo: "pow2 (d - 1) \<le> \<bar>x\<bar>"
  proof -
    have "pow2 (d - 1) = pow2 (bitlen p - 1) / pow2 (bitlen q)"
      unfolding d_def pow2_diff [symmetric] by (simp add: algebra_simps)
    also have "\<dots> \<le> of_int p / of_int q"
      using P1 Q2 qr pow2_pos [of "bitlen p - 1"] by (intro frac_le) auto
    finally show ?thesis unfolding xv .
  qed
  have e: "expo x = (if pow2 d \<le> \<bar>x\<bar> then d else d - 1)"
    by (simp add: expo_def pq d_def Let_def)
  show "pow2 (expo x) \<le> \<bar>x\<bar>" using lo by (simp add: e)
  show "\<bar>x\<bar> < pow2 (expo x + 1)" using up by (auto simp add: e not_le)
qed


lemma fl_nonneg: "0 \<le> x \<Longrightarrow> 0 \<le> fl x"
proof -
  assume h: "0 \<le> x"
  show ?thesis
  proof (cases "x = 0")
    case True then show ?thesis by (simp add: fl_def)
  next
    case False
    define u where "u = pow2 (max (expo x) (- 1022) - 52)"
    have u: "0 < u" unfolding u_def by (rule pow2_pos)
    have "of_int 0 \<le> x / u" using h u by simp
    then have "0 \<le> py_round (x / u)" by (rule py_round_ge)
    then show ?thesis using u False by (simp add: fl_def u_def [symmetric] Let_def)
  qed
qed

lemma fl_nonpos: "x \<le> 0 \<Longrightarrow> fl x \<le> 0"
proof -
  assume h: "x \<le> 0"
  show ?thesis
  proof (cases "x = 0")
    case True then show ?thesis by (simp add: fl_def)
  next
    case False
    define u where "u = pow2 (max (expo x) (- 1022) - 52)"
    have u: "0 < u" unfolding u_def by (rule pow2_pos)
    have "x / u \<le> of_int 0" using h u by (simp add: divide_le_0_iff)
    then have "py_round (x / u) \<le> 0" by (rule py_round_le)
    then show ?thesis using u False
      by (simp add: fl_def u_def [symmetric] Let_def mult_le_0_iff)
  qed
qed

lemma spacing_small:
  assumes "e \<le> 52"
  shows "pow2 (e - 52) * 2 ^ nat (52 - e) = 1"
  using assms by (simp add: pow2_neg)

lemma fl_le_int:
  assumes "x \<le> of_int m" "0 \<le> m" "m < 2 ^ 53"
  shows "fl x \<le> of_int m"
proof (cases "x \<le> 0")
  case True
  then have "fl x \<le> 0" by (rule fl_nonpos)
  then show ?thesis using assms(2) by (meson of_int_0_le_iff order_trans)
next
  case False
  then have xp: "0 < x" "x \<noteq> 0" by auto
  define e where "e = max (expo x) (- 1022)"
  define u where "u = pow2 (e - 52)"
  define N :: int where "N = 2 ^ nat (52 - e)"
  have u: "0 < u" unfolding u_def by (rule pow2_pos)
  have "pow2 (expo x) \<le> x" using expo_bounds(1) [OF xp(2)] xp by simp
  also have "x \<le> of_int m" by fact
  also have "(of_int m :: rat) < 2 ^ 53" using assms(3)
    by (metis of_int_less_iff of_int_numeral of_int_power)
  also have "(2::rat) ^ 53 = pow2 53" by (simp add: pow2_def)
  finally have "expo x < 53" by (rule pow2_less_cancel)
  then have e: "e \<le> 52" by (simp add: e_def)
  have uN: "u * of_int N = 1" unfolding u_def N_def using spacing_small [OF e] by simp
  then have inv: "1 / u = of_int N" using u by (simp add: field_simps)
  have "x / u \<le> of_int m / u" using assms(1) u by (simp add: divide_right_mono)
  also have "of_int m / u = of_int (m * N)"
  proof -
    have "of_int m / u = of_int m * (1 / u)" by simp
    also have "\<dots> = of_int m * of_int N" by (simp only: inv)
    finally show ?thesis by simp
  qed
  finally have "py_round (x / u) \<le> m * N" by (rule py_round_le)
  then have "(of_int (py_round (x / u)) :: rat) \<le> of_int (m * N)" by (simp only: of_int_le_iff)
  then have "of_int (py_round (x / u)) * u \<le> of_int (m * N) * u" using u by (simp add: mult_right_mono)
  also have "of_int (m * N) * u = of_int m" using uN by (simp add: algebra_simps)
  finally show ?thesis using xp by (simp add: fl_def Let_def u_def e_def)
qed

lemma fl_ge_int:
  assumes "of_int m \<le> x" "0 \<le> m" "m < 2 ^ 53"
  shows "of_int m \<le> fl x"
proof (cases "m = 0")
  case True
  then show ?thesis using assms(1) fl_nonneg [of x] by simp
next
  case False
  then have m1: "1 \<le> m" using assms(2) by simp
  then have "(1::rat) \<le> of_int m" by simp
  then have x1: "1 \<le> x" using assms(1) by simp
  then have xp: "0 < x" "x \<noteq> 0" by auto
  define e where "e = max (expo x) (- 1022)"
  define u where "u = pow2 (e - 52)"
  have u: "0 < u" unfolding u_def by (rule pow2_pos)
  have "pow2 0 \<le> x" using x1 by (simp add: pow2_def)
  also have "x < pow2 (expo x + 1)" using expo_bounds(2) [OF xp(2)] xp by simp
  finally have "0 < expo x + 1" by (rule pow2_less_cancel)
  then have ee: "e = expo x" by (simp add: e_def)
  have flx: "fl x = of_int (py_round (x / u)) * u"
    using xp by (simp add: fl_def Let_def u_def e_def)
  show ?thesis
  proof (cases "e \<le> 52")
    case True
    define N :: int where "N = 2 ^ nat (52 - e)"
    have uN: "u * of_int N = 1" unfolding u_def N_def using spacing_small [OF True] by simp
    then have inv: "1 / u = of_int N" using u by (simp add: field_simps)
    have "of_int m / u = of_int m * (1 / u)" by simp
    also have "\<dots> = of_int m * of_int N" by (simp only: inv)
    finally have "of_int (m * N) = of_int m / u" by simp
    also have "\<dots> \<le> x / u" using assms(1) u by (simp add: divide_right_mono)
    finally have "m * N \<le> py_round (x / u)" by (rule py_round_ge)
    then have "(of_int (m * N) :: rat) \<le> of_int (py_round (x / u))" by (simp only: of_int_le_iff)
    then have "of_int (m * N) * u \<le> of_int (py_round (x / u)) * u" using u by (simp add: mult_right_mono)
    moreover have "of_int (m * N) * u = of_int m" using uN by (simp add: algebra_simps)
    ultimately show ?thesis by (simp only: flx)
  next
    case False
    then have e53: "53 \<le> e" by simp
    have u1: "1 \<le> u" unfolding u_def using e53 pow2_mono [of 0 "e - 52"] by (simp add: pow2_def)
    have "pow2 e \<le> x" using expo_bounds(1) [OF xp(2)] xp ee by simp
    then have "pow2 e / u \<le> x / u" using u by (simp add: divide_right_mono)
    moreover have "pow2 e / u = of_int (2 ^ 52)"
      unfolding u_def pow2_diff using pow2_pos [of e] by (simp add: pow2_def)
    ultimately have "of_int (2 ^ 52) \<le> x / u" by simp
    then have "(2::int) ^ 52 \<le> py_round (x / u)" by (rule py_round_ge)
    then have "(of_int (2 ^ 52) :: rat) \<le> of_int (py_round (x / u))" by (simp only: of_int_le_iff)
    then have "(2::rat) ^ 52 \<le> of_int (py_round (x / u))" by simp
    moreover have "(2::rat) \<le> u" unfolding u_def using e53 pow2_mono [of 1 "e - 52"] by (simp add: pow2_def)
    ultimately have "(2::rat) ^ 52 * 2 \<le> of_int (py_round (x / u)) * u"
      by (intro mult_mono) auto
    then have "(2::rat) ^ 53 \<le> fl x" by (simp add: flx)
    moreover have "(of_int m :: rat) < 2 ^ 53" using assms(3)
      by (metis of_int_less_iff of_int_numeral of_int_power)
    ultimately show ?thesis by simp
  qed
qed

lemma fl_of_int: "0 \<le> m \<Longrightarrow> m < 2 ^ 53 \<Longrightarrow> fl (of_int m) = of_int m"
  using fl_le_int [of "of_int m" m] fl_ge_int [of m "of_int m"] by simp

lemma fmul_nonneg: "0 \<le> g \<Longrightarrow> 0 \<le> f \<Longrightarrow> 0 \<le> fmul g f"
  unfolding fmul_def by (intro fl_nonneg mult_nonneg_nonneg) simp

lemma fmul_le:
  assumes "0 \<le> g" "g < 2 ^ 53" "0 \<le> f" "f \<le> 1"
  shows "fmul g f \<le> of_int g"
proof -
  have "of_int g * f \<le> (of_int g :: rat)" using assms by (simp add: mult_left_le)
  then show ?thesis unfolding fmul_def fl_of_int [OF assms(1,2)]
    using assms(1,2) by (rule fl_le_int)
qed

lemma target_of_bounds:
  assumes "0 \<le> n" "n < 2 ^ 53" "0 \<le> f" "f \<le> 1"
  shows "0 \<le> target_of n f" and "target_of n f \<le> n"
proof -
  have "of_int 0 \<le> fmul n f" using fmul_nonneg [OF assms(1,3)] by simp
  then show "0 \<le> target_of n f" unfolding target_of_def by (rule py_round_ge)
  show "target_of n f \<le> n" unfolding target_of_def
    using fmul_le [OF assms] by (rule py_round_le)
qed

lemma floor_alloc_bounds:
  assumes "0 \<le> g" "g < 2 ^ 53" "0 \<le> TRAIN_FRAC cfg" "TRAIN_FRAC cfg \<le> 1"
    "0 \<le> DEV_FRAC cfg" "DEV_FRAC cfg \<le> 1"
  shows "0 \<le> train (floor_alloc cfg g)" "train (floor_alloc cfg g) \<le> g"
    "0 \<le> dev (floor_alloc cfg g)" "dev (floor_alloc cfg g) \<le> g"
    "test (floor_alloc cfg g) = g - train (floor_alloc cfg g) - dev (floor_alloc cfg g)"
    "size_g (floor_alloc cfg g) = g"
  using fmul_nonneg [OF assms(1,3)] fmul_le [OF assms(1,2,3,4)]
    fmul_nonneg [OF assms(1,5)] fmul_le [OF assms(1,2,5,6)]
  by (simp_all add: floor_alloc_def Let_def floor_le_iff le_floor_iff)

section \<open>Properties of the allocation passes\<close>

lemma total_Nil [simp]: "total s [] = 0" by (simp add: total_def)
lemma total_Cons [simp]: "total s ((k, v) # ga) = cur s v + total s ga" by (simp add: total_def)
lemma total_append [simp]: "total s (xs @ ys) = total s xs + total s ys" by (simp add: total_def)

lemma room_Nil [simp]: "room s [] = 0" by (simp add: room_def)
lemma room_Cons [simp]: "room s ((k, v) # ga) = size_g v - cur s v + room s ga" by (simp add: room_def)

lemma frame_Nil [simp]: "frame s [] = []" by (simp add: frame_def)
lemma frame_Cons [simp]:
  "frame s ((k, v) # ga) = (k, size_g v, ideal_train v, ideal_dev v, cur (other s) v) # frame s ga"
  by (simp add: frame_def)
lemma frame_append [simp]: "frame s (xs @ ys) = frame s xs @ frame s ys" by (simp add: frame_def)

lemma frame_keys: "frame s ga' = frame s ga \<Longrightarrow> map fst ga' = map fst ga"
proof -
  assume "frame s ga' = frame s ga"
  then have "map fst (frame s ga') = map fst (frame s ga)" by simp
  then show ?thesis by (simp add: frame_def comp_def case_prod_beta)
qed

lemma frame_length: "frame s ga' = frame s ga \<Longrightarrow> length ga' = length ga"
  using frame_keys map_eq_imp_length_eq by blast

lemma add_units_simps [simp]:
  "size_g (add_units s c v) = size_g v"
  "ideal_train (add_units s c v) = ideal_train v"
  "ideal_dev (add_units s c v) = ideal_dev v"
  "cur s (add_units s c v) = cur s v + c"
  "cur (other s) (add_units s c v) = cur (other s) v"
  "test (add_units s c v) = size_g v - train v - dev v - c"
  by (cases s; simp add: add_units_def Let_def)+

lemma add_units_train: "train (add_units s c v) = (if s = Train then train v + c else train v)"
  by (cases s) (simp_all add: add_units_def Let_def)

lemma add_units_dev: "dev (add_units s c v) = (if s = Dev then dev v + c else dev v)"
  by (cases s) (simp_all add: add_units_def Let_def)

lemma wf_alloc_cur: "wf_alloc v \<Longrightarrow> 0 \<le> cur s v \<and> cur s v \<le> size_g v"
  by (cases s) (simp_all add: wf_alloc_def)

lemma wf_add_units:
  assumes "wf_alloc v" "0 \<le> cur s v + c" "cur s v + c \<le> size_g v"
  shows "wf_alloc (add_units s c v)"
  using assms by (cases s) (simp_all add: wf_alloc_def add_units_def Let_def)

lemma room_total: "room s ga = sum_list (map (\<lambda>(k, v). size_g v) ga) - total s ga"
  by (induction ga) (auto simp: room_def total_def)

lemma frame_sizes:
  "frame s ga' = frame s ga \<Longrightarrow>
   map (\<lambda>(k, v). size_g v) ga' = map (\<lambda>(k, v). size_g v) ga"
proof -
  assume "frame s ga' = frame s ga"
  then have "map (\<lambda>x. fst (snd x)) (frame s ga') = map (\<lambda>x. fst (snd x)) (frame s ga)" by simp
  then show ?thesis by (simp add: frame_def comp_def case_prod_unfold)
qed

subsection \<open>Updating one group\<close>

lemma update_group_keys [simp]: "map fst (update_group k f ga) = map fst ga"
  by (induction ga) (auto simp: update_group_def)

lemma update_group_frame [simp]:
  "frame s (update_group k (add_units s c) ga) = frame s ga"
  by (induction ga) (auto simp: update_group_def)

lemma update_group_total:
  "distinct (map fst ga) \<Longrightarrow> k \<in> fst ` set ga \<Longrightarrow>
   total s (update_group k (add_units s c) ga) = total s ga + c"
proof (induction ga)
  case Nil then show ?case by simp
next
  case (Cons a ga)
  obtain k' v where a: "a = (k', v)" by (cases a)
  show ?case
  proof (cases "k' = k")
    case True
    then have "k \<notin> fst ` set ga" using Cons.prems(1) a by auto
    then have "update_group k (add_units s c) ga = ga"
      by (force simp: update_group_def intro!: map_idI)
    then show ?thesis using True a by (simp add: update_group_def)
  next
    case False
    then have "k \<in> fst ` set ga" using Cons.prems(2) a by auto
    then show ?thesis using Cons False a by (simp add: update_group_def)
  qed
qed

lemma update_group_set:
  "set (update_group k f ga) = (\<lambda>(k', v). if k' = k then (k', f v) else (k', v)) ` set ga"
  by (simp add: update_group_def)

lemma update_group_mem:
  "(k', v') \<in> set (update_group k f ga) \<longleftrightarrow>
   (k' \<noteq> k \<and> (k', v') \<in> set ga) \<or> (k' = k \<and> (\<exists>v. (k, v) \<in> set ga \<and> v' = f v))"
  by (force simp: update_group_set image_iff split: if_splits)

subsection \<open>The walk over the ranked list\<close>

lemma caps_ok_Cons:
  "caps_ok ((fr, k, cap) # fracs) ga \<longleftrightarrow>
   k \<in> fst ` set ga \<and> (\<forall>v. (k, v) \<in> set ga \<longrightarrow> cap = size_g v - train v - dev v) \<and> caps_ok fracs ga"
  by (auto simp: caps_ok_def)

lemma caps_ok_update:
  assumes "caps_ok fracs ga" "k \<notin> set (map (\<lambda>x. fst (snd x)) fracs)"
  shows "caps_ok fracs (update_group k f ga)"
  unfolding caps_ok_def
proof (intro ballI, clarify)
  fix fr k' cap assume m: "(fr, k', cap) \<in> set fracs"
  then have ne: "k' \<noteq> k" using assms(2) by force
  from m assms(1) have a: "k' \<in> fst ` set ga" "\<forall>v. (k', v) \<in> set ga \<longrightarrow> cap = size_g v - train v - dev v"
    by (auto simp: caps_ok_def)
  have "k' \<in> fst ` set (update_group k f ga)"
    using a(1) by (metis list.set_map update_group_keys)
  moreover have "\<forall>v. (k', v) \<in> set (update_group k f ga) \<longrightarrow> cap = size_g v - train v - dev v"
    using a(2) ne by (auto simp: update_group_mem)
  ultimately show "k' \<in> fst ` set (update_group k f ga) \<and>
       (\<forall>v. (k', v) \<in> set (update_group k f ga) \<longrightarrow> cap = size_g v - train v - dev v)" by blast
qed

lemma wf_galloc_update:
  assumes "wf_galloc ga" "\<forall>v. (k, v) \<in> set ga \<longrightarrow> 0 < size_g v - train v - dev v"
  shows "wf_galloc (update_group k (add_units s 1) ga)"
  unfolding wf_galloc_def
proof (intro ballI, clarify)
  fix k' v' assume "(k', v') \<in> set (update_group k (add_units s 1) ga)"
  then consider "(k', v') \<in> set ga" | v where "(k, v) \<in> set ga" "v' = add_units s 1 v"
    by (auto simp: update_group_mem)
  then show "wf_alloc v'"
  proof cases
    case 1 then show ?thesis using assms(1) by (auto simp: wf_galloc_def)
  next
    case 2
    then have w: "wf_alloc v" and c: "0 < size_g v - train v - dev v"
      using assms by (auto simp: wf_galloc_def)
    have "wf_alloc (add_units s 1 v)"
      using w c by (intro wf_add_units) (cases s; auto simp: wf_alloc_def)+
    then show ?thesis using 2 by simp
  qed
qed

lemma walk_props:
  assumes "distinct (map fst ga)" "distinct (map (\<lambda>x. fst (snd x)) fracs)" "caps_ok fracs ga" "wf_galloc ga"
  shows "frame s (fst (walk s fracs d ga)) = frame s ga
    \<and> wf_galloc (fst (walk s fracs d ga))
    \<and> total s (fst (walk s fracs d ga)) = total s ga + (d - snd (walk s fracs d ga))
    \<and> snd (walk s fracs d ga) =
        (if 0 \<le> d then max 0 (d - int (length (filter (\<lambda>(fr, k, cap). 0 < cap) fracs))) else d)"
  using assms
proof (induction fracs arbitrary: d ga)
  case Nil
  then show ?case by simp
next
  case (Cons a fracs)
  obtain fr k cap where a: "a = (fr, k, cap)" by (cases a)
  have kn: "k \<notin> set (map (\<lambda>x. fst (snd x)) fracs)" and dr: "distinct (map (\<lambda>x. fst (snd x)) fracs)"
    using Cons.prems(2) a by simp_all
  have co: "k \<in> fst ` set ga" "\<forall>v. (k, v) \<in> set ga \<longrightarrow> cap = size_g v - train v - dev v"
    "caps_ok fracs ga"
    using Cons.prems(3) a by (auto simp: caps_ok_Cons)
  show ?case
  proof (cases "0 < d")
    case False
    then show ?thesis using a Cons.prems(4) by auto
  next
    case dpos: True
    show ?thesis
    proof (cases "0 < cap")
      case False
      then show ?thesis using dpos a Cons.IH [OF Cons.prems(1) dr co(3) Cons.prems(4), of d]
        by simp
    next
      case True
      let ?ga = "update_group k (add_units s 1) ga"
      have 1: "distinct (map fst ?ga)" using Cons.prems(1) by simp
      have 2: "caps_ok fracs ?ga" using co(3) kn by (rule caps_ok_update)
      have 3: "wf_galloc ?ga" using Cons.prems(4) co(2) True by (intro wf_galloc_update) auto
      have 4: "total s ?ga = total s ga + 1" using Cons.prems(1) co(1) by (rule update_group_total)
      show ?thesis using dpos True a Cons.IH [OF 1 dr 2 3, of "d - 1"] 4
        by (auto simp: max_def)
    qed
  qed
qed


subsection \<open>The round-robin fallback returns\<close>

lemma total_update:
  "i < length ga \<Longrightarrow> total s (ga[i := (k, v')]) = total s ga - cur s (snd (ga ! i)) + cur s v'"
proof (induction ga arbitrary: i)
  case Nil then show ?case by simp
next
  case (Cons a ga)
  obtain k0 v0 where a: "a = (k0, v0)" by (cases a)
  show ?case using Cons a by (cases i) auto
qed

lemma frame_update:
  "i < length ga \<Longrightarrow>
   frame s (ga[i := (fst (ga ! i), add_units s c (snd (ga ! i)))]) = frame s ga"
proof (induction ga arbitrary: i)
  case Nil then show ?case by simp
next
  case (Cons a ga)
  obtain k0 v0 where a: "a = (k0, v0)" by (cases a)
  show ?case using Cons a by (cases i) auto
qed

lemma wf_galloc_list_update:
  "wf_galloc ga \<Longrightarrow> wf_alloc v' \<Longrightarrow> wf_galloc (ga[i := (k, v')])"
  unfolding wf_galloc_def by (auto dest!: subsetD [OF set_update_subset_insert])

lemma wf_galloc_nth: "wf_galloc ga \<Longrightarrow> i < length ga \<Longrightarrow> wf_alloc (snd (ga ! i))"
  unfolding wf_galloc_def by (metis case_prod_beta nth_mem)

lemma room_pos_ex:
  "wf_galloc ga \<Longrightarrow> 0 < room s ga \<Longrightarrow>
   \<exists>p < length ga. cur s (snd (ga ! p)) < size_g (snd (ga ! p))"
proof (induction ga)
  case Nil then show ?case by simp
next
  case (Cons a ga)
  obtain k0 v0 where a: "a = (k0, v0)" by (cases a)
  show ?case
  proof (cases "cur s v0 < size_g v0")
    case True
    then show ?thesis using a by (intro exI [of _ 0]) simp
  next
    case False
    moreover have "wf_alloc v0" using Cons.prems(1) a by (simp add: wf_galloc_def)
    ultimately have "cur s v0 = size_g v0" using wf_alloc_cur [of v0 s] by simp
    then have "0 < room s ga" using Cons.prems(2) a by simp
    moreover have "wf_galloc ga" using Cons.prems(1) by (simp add: wf_galloc_def)
    ultimately obtain p where "p < length ga" "cur s (snd (ga ! p)) < size_g (snd (ga ! p))"
      using Cons.IH by blast
    then show ?thesis by (intro exI [of _ "Suc p"]) simp
  qed
qed

lemma room_update:
  "i < length ga \<Longrightarrow>
   room s (ga[i := (fst (ga ! i), add_units s c (snd (ga ! i)))]) = room s ga - c"
proof (induction ga arbitrary: i)
  case Nil then show ?case by simp
next
  case (Cons a ga)
  obtain k0 v0 where a: "a = (k0, v0)" by (cases a)
  show ?case using Cons a by (cases i) auto
qed

lemma round_robin_returns:
  assumes "wf_galloc ga" "d \<le> room s ga"
  shows "\<exists>ga'. round_robin s idx d ga = Some (Inr ga') \<and> frame s ga' = frame s ga \<and>
           wf_galloc ga' \<and> total s ga' = total s ga + max 0 d"
  using assms
proof (induction "nat d" arbitrary: d idx ga)
  case 0
  then have "d \<le> 0" by simp
  then show ?case using "0.prems" by (subst round_robin.simps) simp
next
  case (Suc n)
  then have dpos: "0 < d" and n: "n = nat (d - 1)" by linarith+
  have rp: "0 < room s ga" using dpos Suc.prems(2) by simp
  obtain p where p: "p < length ga" "cur s (snd (ga ! p)) < size_g (snd (ga ! p))"
    using room_pos_ex [OF Suc.prems(1) rp] by blast
  then have len: "0 < length ga" by auto
  define j where "j = p + length ga - idx mod length ga"
  define q where "q = length ga * (idx div length ga)"
  have "idx mod length ga < length ga" using len by simp
  moreover have "idx = q + idx mod length ga" unfolding q_def by simp
  ultimately have "idx + j = p + length ga + q" unfolding j_def by linarith
  then have "idx + j = p + length ga * (idx div length ga + 1)" unfolding q_def by simp
  then have "(idx + j) mod length ga = p mod length ga" by (simp only: mod_mult_self2)
  then have jp: "(idx + j) mod length ga = p" using p(1) by simp
  have grant: "cur s (snd (ga ! (idx mod length ga))) < size_g (snd (ga ! (idx mod length ga)))
    \<Longrightarrow> \<exists>ga'. round_robin s idx d ga = Some (Inr ga') \<and> frame s ga' = frame s ga \<and>
           wf_galloc ga' \<and> total s ga' = total s ga + max 0 d" for idx
  proof -
    assume g: "cur s (snd (ga ! (idx mod length ga))) < size_g (snd (ga ! (idx mod length ga)))"
    let ?i = "idx mod length ga"
    let ?v = "snd (ga ! ?i)"
    let ?ga = "ga[?i := (fst (ga ! ?i), add_units s 1 ?v)]"
    have i: "?i < length ga" using len by simp
    have wv: "wf_alloc ?v" using Suc.prems(1) i by (rule wf_galloc_nth)
    have "wf_alloc (add_units s 1 ?v)"
      using wv g wf_alloc_cur [OF wv, of s] by (intro wf_add_units) auto
    then have 1: "wf_galloc ?ga" using Suc.prems(1) by (intro wf_galloc_list_update)
    have 2: "d - 1 \<le> room s ?ga" using Suc.prems(2) room_update [OF i, of s 1] by simp
    obtain ga' where r: "round_robin s (idx + 1) (d - 1) ?ga = Some (Inr ga')"
      "frame s ga' = frame s ?ga" "wf_galloc ga'" "total s ga' = total s ?ga + max 0 (d - 1)"
      using Suc.hyps(1) [OF n 1 2, of "idx + 1"] by blast
    have "round_robin s idx d ga = round_robin s (idx + 1) (d - 1) ?ga"
      using dpos len g by (subst round_robin.simps) simp
    moreover have "frame s ?ga = frame s ga" using i by (rule frame_update)
    moreover have "total s ?ga = total s ga + 1" using total_update [OF i, of s] by simp
    ultimately show ?thesis using r dpos by (intro exI [of _ ga']) simp
  qed
  have inner: "cur s (snd (ga ! ((idx + j) mod length ga))) < size_g (snd (ga ! ((idx + j) mod length ga)))
    \<Longrightarrow> \<exists>ga'. round_robin s idx d ga = Some (Inr ga') \<and> frame s ga' = frame s ga \<and>
           wf_galloc ga' \<and> total s ga' = total s ga + max 0 d" for j idx
  proof (induction j arbitrary: idx)
    case 0
    then show ?case using grant [of idx] by simp
  next
    case (Suc j)
    show ?case
    proof (cases "cur s (snd (ga ! (idx mod length ga))) < size_g (snd (ga ! (idx mod length ga)))")
      case True
      then show ?thesis by (rule grant)
    next
      case False
      then have "round_robin s idx d ga = round_robin s (idx + 1) d ga"
        using dpos len by (subst round_robin.simps) simp
      moreover have "\<exists>ga'. round_robin s (idx + 1) d ga = Some (Inr ga') \<and> frame s ga' = frame s ga \<and>
           wf_galloc ga' \<and> total s ga' = total s ga + max 0 d"
        using Suc.prems by (intro Suc.IH) simp
      ultimately show ?thesis by simp
    qed
  qed
  show ?case using inner [where j = j and idx = idx] jp p(2) by simp
qed


subsection \<open>One deficit-correction pass\<close>

lemma frame_shape: "frame s ga' = frame s ga \<Longrightarrow> shape ga' = shape ga"
proof -
  assume "frame s ga' = frame s ga"
  then have "map (\<lambda>x. (fst x, fst (snd x))) (frame s ga') = map (\<lambda>x. (fst x, fst (snd x))) (frame s ga)"
    by simp
  then show ?thesis by (simp add: frame_def shape_def comp_def case_prod_unfold)
qed

lemma frame_total_other: "frame s ga' = frame s ga \<Longrightarrow> total (other s) ga' = total (other s) ga"
proof -
  assume "frame s ga' = frame s ga"
  then have "map (\<lambda>x. snd (snd (snd (snd x)))) (frame s ga')
    = map (\<lambda>x. snd (snd (snd (snd x)))) (frame s ga)" by simp
  then show ?thesis by (simp add: frame_def total_def comp_def case_prod_unfold)
qed

lemma shape_keys: "shape ga' = shape ga \<Longrightarrow> map fst ga' = map fst ga"
proof -
  assume "shape ga' = shape ga"
  then have "map fst (shape ga') = map fst (shape ga)" by simp
  then show ?thesis by (simp add: shape_def comp_def case_prod_unfold)
qed

lemma room_sizes: "room s ga = sizes ga - total s ga"
  by (simp add: room_total sizes_def shape_def comp_def case_prod_unfold)

lemma mset_ranked:
  "mset (ranked s ga) =
   mset (map (\<lambda>(k, v). (fsub (ideal s v) (cur s v), k, size_g v - train v - dev v)) ga)"
  by (simp add: ranked_def)

lemma ranked_keys: "mset (map (\<lambda>x. fst (snd x)) (ranked s ga)) = mset (map fst ga)"
proof -
  have "mset (map (\<lambda>x. fst (snd x)) (ranked s ga))
    = image_mset (\<lambda>x. fst (snd x)) (mset (ranked s ga))" by simp
  also have "\<dots> = mset (map fst ga)"
    unfolding mset_ranked by (simp add: multiset.map_comp comp_def case_prod_unfold)
  finally show ?thesis .
qed

lemma ranked_distinct: "distinct (map fst ga) \<Longrightarrow> distinct (map (\<lambda>x. fst (snd x)) (ranked s ga))"
  using ranked_keys [of s ga] by (metis mset_eq_imp_distinct_iff)

lemma ranked_set:
  "set (ranked s ga) = (\<lambda>(k, v). (fsub (ideal s v) (cur s v), k, size_g v - train v - dev v)) ` set ga"
  by (simp add: ranked_def)

lemma ranked_caps_ok: "distinct (map fst ga) \<Longrightarrow> caps_ok (ranked s ga) ga"
  unfolding caps_ok_def ranked_set
  by (auto simp: rev_image_eqI dest: eq_key_imp_eq_value)

lemma adjust_for_target_returns:
  assumes "distinct (map fst ga)" "wf_galloc ga" "target \<le> sizes ga"
  shows "\<exists>ga'. adjust_for_target s target ga = Some (Inr ga') \<and> frame s ga' = frame s ga \<and>
           wf_galloc ga' \<and> total s ga' = max target (total s ga)"
proof -
  define d where "d = target - total s ga"
  define w where "w = walk s (ranked s ga) d ga"
  have wp: "frame s (fst w) = frame s ga" "wf_galloc (fst w)"
    "total s (fst w) = total s ga + (d - snd w)"
    "snd w = (if 0 \<le> d then max 0 (d - int (length (filter (\<lambda>(fr, k, cap). 0 < cap) (ranked s ga)))) else d)"
    using walk_props [OF assms(1) ranked_distinct [OF assms(1)] ranked_caps_ok [OF assms(1)] assms(2), where s = s and d = d]
    unfolding w_def by auto
  have adj: "adjust_for_target s target ga =
    (if d = 0 then Some (Inr ga)
     else if 0 < snd w then round_robin s 0 (snd w) (fst w) else Some (Inr (fst w)))"
    by (simp add: adjust_for_target_def Let_def d_def w_def case_prod_unfold)
  show ?thesis
  proof (cases "d = 0")
    case True
    then show ?thesis using assms(2) adj d_def by simp
  next
    case dz: False
    show ?thesis
    proof (cases "0 < snd w")
      case False
      then have "snd w = d \<and> d < 0 \<or> snd w = 0 \<and> 0 < d" using wp(4) dz by (auto split: if_splits)
      then have "total s (fst w) = max target (total s ga)" using wp(3) d_def by auto
      then show ?thesis using adj dz False wp(1,2) by simp
    next
      case True
      have "sizes (fst w) = sizes ga" using frame_shape [OF wp(1)] by (simp add: sizes_def)
      then have "snd w \<le> room s (fst w)" using wp(3) assms(3) by (simp add: room_sizes d_def)
      then obtain ga' where r: "round_robin s 0 (snd w) (fst w) = Some (Inr ga')"
        "frame s ga' = frame s (fst w)" "wf_galloc ga'" "total s ga' = total s (fst w) + max 0 (snd w)"
        using round_robin_returns [OF wp(2), where d = "snd w" and s = s and idx = 0] by blast
      have "0 < d" using True wp(4) by (auto split: if_splits)
      then have "total s ga' = max target (total s ga)" using r(4) wp(3) True d_def by simp
      then show ?thesis using adj dz True r wp(1) by simp
    qed
  qed
qed

subsection \<open>The reconciliation loop\<close>

lemma wf_galloc_append: "wf_galloc (xs @ ys) \<longleftrightarrow> wf_galloc xs \<and> wf_galloc ys"
  by (auto simp: wf_galloc_def)

lemma wf_galloc_Cons: "wf_galloc ((k, v) # ys) \<longleftrightarrow> wf_alloc v \<and> wf_galloc ys"
  by (auto simp: wf_galloc_def)

lemma reconcile_frame:
  "frame s (reconcile s target seen rest diff) = frame s (seen @ rest)"
proof (induction s target seen rest diff rule: reconcile.induct)
  case (1 s target seen diff)
  then show ?case by simp
next
  case (2 s target seen k v rest diff)
  then show ?case by (simp add: Let_def)
qed

lemma reconcile_wf:
  "wf_galloc (seen @ rest) \<Longrightarrow> wf_galloc (reconcile s target seen rest diff)"
proof (induction s target seen rest diff rule: reconcile.induct)
  case (1 s target seen diff)
  then show ?case by simp
next
  case (2 s target seen k v rest diff)
  have wv: "wf_alloc v" and ws: "wf_galloc seen" and wr: "wf_galloc rest"
    using "2.prems" by (simp_all add: wf_galloc_append wf_galloc_Cons)
  define can where "can = (if diff > 0 then test v else cur s v)"
  define change where "change = min \<bar>diff\<bar> can"
  define v' where "v' = add_units s (if diff > 0 then change else - change) v"
  have eq: "reconcile s target seen ((k, v) # rest) diff =
    (if diff = 0 then seen @ (k, v) # rest
     else if change \<le> 0 then reconcile s target (seen @ [(k, v)]) rest diff
     else reconcile s target (seen @ [(k, v')]) rest (target - total s (seen @ (k, v') # rest)))"
    by (simp only: reconcile.simps Let_def can_def change_def v'_def)
  show ?case
  proof (cases "diff = 0")
    case True
    then show ?thesis unfolding eq using "2.prems" by simp
  next
    case dz: False
    show ?thesis
    proof (cases "change \<le> 0")
      case True
      then show ?thesis unfolding eq using dz "2.IH"(1) [OF dz can_def change_def True] "2.prems"
        by simp
    next
      case False
      have "wf_alloc v'"
        unfolding v'_def using wv False
        by (intro wf_add_units) (cases s; auto simp: wf_alloc_def change_def can_def split: if_splits)+
      then have "wf_galloc ((seen @ [(k, v')]) @ rest)"
        using ws wr by (simp add: wf_galloc_append wf_galloc_Cons)
      then show ?thesis unfolding eq
        using dz False "2.IH"(2) [OF dz can_def change_def False v'_def]
        by simp
    qed
  qed
qed

lemma total_nonneg: "wf_galloc ga \<Longrightarrow> 0 \<le> total s ga"
proof (induction ga)
  case Nil then show ?case by simp
next
  case (Cons a ga)
  obtain k v where a: "a = (k, v)" by (cases a)
  have "0 \<le> cur s v" using Cons.prems a wf_alloc_cur [of v s] by (simp add: wf_galloc_Cons)
  moreover have "0 \<le> total s ga" using Cons a by (simp add: wf_galloc_Cons)
  ultimately show ?case using a by simp
qed

lemma reconcile_total_down:
  "wf_galloc (seen @ rest) \<Longrightarrow> diff = target - total s (seen @ rest) \<Longrightarrow> diff \<le> 0 \<Longrightarrow>
   total s seen \<le> target \<Longrightarrow> total s (reconcile s target seen rest diff) = target"
proof (induction s target seen rest diff rule: reconcile.induct)
  case (1 s target seen diff)
  then show ?case by simp
next
  case (2 s target seen k v rest diff)
  have wv: "wf_alloc v" and ws: "wf_galloc seen" and wr: "wf_galloc rest"
    using "2.prems" by (simp_all add: wf_galloc_append wf_galloc_Cons)
  have cv: "0 \<le> cur s v" using wf_alloc_cur [OF wv] by simp
  define can where "can = (if diff > 0 then test v else cur s v)"
  define change where "change = min \<bar>diff\<bar> can"
  define v' where "v' = add_units s (if diff > 0 then change else - change) v"
  have eq: "reconcile s target seen ((k, v) # rest) diff =
    (if diff = 0 then seen @ (k, v) # rest
     else if change \<le> 0 then reconcile s target (seen @ [(k, v)]) rest diff
     else reconcile s target (seen @ [(k, v')]) rest (target - total s (seen @ (k, v') # rest)))"
    by (simp only: reconcile.simps Let_def can_def change_def v'_def)
  show ?case
  proof (cases "diff = 0")
    case True
    then show ?thesis unfolding eq using "2.prems" by simp
  next
    case dz: False
    then have dn: "diff < 0" using "2.prems"(3) by simp
    show ?thesis
    proof (cases "change \<le> 0")
      case True
      then have c0: "cur s v = 0" using dn cv by (auto simp: change_def can_def)
      have "total s (reconcile s target (seen @ [(k, v)]) rest diff) = target"
        using "2.prems" c0 by (intro "2.IH"(1) [OF dz can_def change_def True]) simp_all
      then show ?thesis unfolding eq using dz True by simp
    next
      case False
      have ch: "change = min (- diff) (cur s v)" using dn by (simp add: change_def can_def)
      have wv': "wf_alloc v'"
        unfolding v'_def using wv False dn cv
        by (intro wf_add_units) (auto simp: ch dest: wf_alloc_cur [of _ s])
      have cv': "cur s v' = cur s v - change" using dn by (simp add: v'_def)
      have "total s (reconcile s target (seen @ [(k, v')]) rest
              (target - total s (seen @ (k, v') # rest))) = target"
      proof (intro "2.IH"(2) [OF dz can_def change_def False v'_def])
        show "wf_galloc ((seen @ [(k, v')]) @ rest)"
          using ws wr wv' by (simp add: wf_galloc_append wf_galloc_Cons)
        show "target - total s (seen @ (k, v') # rest) = target - total s ((seen @ [(k, v')]) @ rest)"
          by simp
        show "target - total s (seen @ (k, v') # rest) \<le> 0"
          using "2.prems"(2) dn cv' ch by simp
        show "total s (seen @ [(k, v')]) \<le> target"
          using "2.prems"(2,4) dn cv' ch total_nonneg [OF wr, of s]
          by (auto simp: min_def split: if_splits)
      qed
      then show ?thesis unfolding eq using dz False by simp
    qed
  qed
qed

subsection \<open>The allocation as a whole\<close>

lemma final_reconciliation_props:
  assumes "wf_galloc ga" "0 \<le> tt" "0 \<le> td" "tt \<le> total Train ga" "td \<le> total Dev ga"
  shows "wf_galloc (final_reconciliation tt td ga)"
    and "shape (final_reconciliation tt td ga) = shape ga"
    and "total Train (final_reconciliation tt td ga) = tt"
    and "total Dev (final_reconciliation tt td ga) = td"
proof -
  define ga1 where "ga1 = (if total Train ga \<noteq> tt
                 then reconcile Train tt [] ga (tt - total Train ga) else ga)"
  define ga2 where "ga2 = (if total Dev ga \<noteq> td
         then reconcile Dev td [] ga1 (td - total Dev ga) else ga1)"
  have fr: "final_reconciliation tt td ga = ga2"
    by (simp add: final_reconciliation_def Let_def ga1_def ga2_def)
  have w1: "wf_galloc ga1" using assms(1) reconcile_wf [of "[]" ga Train tt] by (simp add: ga1_def)
  have f1: "frame Train ga1 = frame Train ga" using reconcile_frame [of Train tt "[]" ga]
    by (simp add: ga1_def)
  have t1: "total Train ga1 = tt"
    using assms(1,2,4) reconcile_total_down [of "[]" ga "tt - total Train ga" tt Train]
    by (simp add: ga1_def)
  have d1: "total Dev ga1 = total Dev ga" using frame_total_other [OF f1] by simp
  have w2: "wf_galloc ga2" using w1 reconcile_wf [of "[]" ga1 Dev td] by (simp add: ga2_def)
  have f2: "frame Dev ga2 = frame Dev ga1" using reconcile_frame [of Dev td "[]" ga1]
    by (simp add: ga2_def)
  have t2: "total Dev ga2 = td"
    using w1 assms(3,5) d1 reconcile_total_down [of "[]" ga1 "td - total Dev ga1" td Dev]
    by (simp add: ga2_def)
  have "total Train ga2 = total Train ga1" using frame_total_other [OF f2] by simp
  then show "total Train (final_reconciliation tt td ga) = tt" using t1 fr by simp
  show "total Dev (final_reconciliation tt td ga) = td" using t2 fr by simp
  show "wf_galloc (final_reconciliation tt td ga)" using w2 fr by simp
  show "shape (final_reconciliation tt td ga) = shape ga"
    using frame_shape [OF f1] frame_shape [OF f2] fr by simp
qed

lemma deficit_correction_returns:
  assumes "distinct (map fst ga)" "wf_galloc ga" "tt \<le> sizes ga" "td \<le> sizes ga"
  shows "\<exists>ga'. deficit_correction tt td ga = Some (Inr ga') \<and> wf_galloc ga' \<and> shape ga' = shape ga \<and>
      total Train ga' = max tt (total Train ga) \<and> total Dev ga' = max td (total Dev ga)"
proof -
  obtain ga1 where 1: "adjust_for_target Train tt ga = Some (Inr ga1)" "frame Train ga1 = frame Train ga"
    "wf_galloc ga1" "total Train ga1 = max tt (total Train ga)"
    using adjust_for_target_returns [OF assms(1,2,3), of Train] by blast
  have s1: "shape ga1 = shape ga" using frame_shape [OF 1(2)] .
  have k1: "distinct (map fst ga1)" using shape_keys [OF s1] assms(1) by simp
  have z1: "td \<le> sizes ga1" using assms(4) s1 by (simp add: sizes_def)
  obtain ga2 where 2: "adjust_for_target Dev td ga1 = Some (Inr ga2)" "frame Dev ga2 = frame Dev ga1"
    "wf_galloc ga2" "total Dev ga2 = max td (total Dev ga1)"
    using adjust_for_target_returns [OF k1 1(3) z1, of Dev] by blast
  have "total Train ga2 = total Train ga1" using frame_total_other [OF 2(2)] by simp
  moreover have "total Dev ga1 = total Dev ga" using frame_total_other [OF 1(2)] by simp
  moreover have "shape ga2 = shape ga" using frame_shape [OF 2(2)] s1 by simp
  ultimately show ?thesis using 1 2 by (simp add: deficit_correction_def)
qed

lemma initial_alloc_shape:
  "shape (initial_alloc cfg groups) = map (\<lambda>(k, ids). (k, int (length ids))) groups"
  by (simp add: initial_alloc_def shape_def floor_alloc_def Let_def comp_def case_prod_unfold)

lemma initial_alloc_wf:
  assumes "valid_fracs cfg" "\<forall>(k, ids) \<in> set groups. int (length ids) < 2 ^ 53"
  shows "wf_galloc (initial_alloc cfg groups)"
  unfolding wf_galloc_def initial_alloc_def
proof (clarsimp)
  fix k ids assume "(k, ids) \<in> set groups"
  then have b: "int (length ids) < 2 ^ 53" using assms(2) by auto
  show "wf_alloc (floor_alloc cfg (int (length ids)))"
    unfolding wf_alloc_def
    using floor_alloc_bounds [of "int (length ids)" cfg] b assms(1)
    by (simp add: valid_fracs_def)
qed

lemma sum_group_sizes: "sum_list (map snd (group_sizes groups)) = int (length (concat (map snd groups)))"
  by (induction groups) (auto simp: group_sizes_def)

lemma length_le_concat: "ids \<in> set xss \<Longrightarrow> length ids \<le> length (concat xss)"
  by (induction xss) auto

lemma group_allocation_returns:
  assumes "distinct (map fst groups)" "valid_fracs cfg"
    "n = int (length (concat (map snd groups)))" "n < 2 ^ 53"
  shows "\<exists>ga. group_allocation cfg n groups = Some (Inr ga) \<and> wf_galloc ga \<and>
      shape ga = group_sizes groups \<and>
      total Train ga = target_of n (TRAIN_FRAC cfg) \<and> total Dev ga = target_of n (DEV_FRAC cfg)"
proof -
  let ?ga0 = "initial_alloc cfg groups"
  let ?tt = "target_of n (TRAIN_FRAC cfg)"
  let ?td = "target_of n (DEV_FRAC cfg)"
  have n0: "0 \<le> n" using assms(3) by simp
  have sh: "shape ?ga0 = group_sizes groups" by (simp add: initial_alloc_shape group_sizes_def)
  have k0: "distinct (map fst ?ga0)" using assms(1) by (simp add: initial_alloc_def comp_def case_prod_unfold)
  have sz: "sizes ?ga0 = n" using sh assms(3) by (simp add: sizes_def sum_group_sizes)
  have small: "\<forall>(k, ids) \<in> set groups. int (length ids) < 2 ^ 53"
  proof (clarify)
    fix k ids assume m: "(k, ids) \<in> set groups"
    then have "ids \<in> set (map snd groups)" by force
    then have "length ids \<le> length (concat (map snd groups))" by (rule length_le_concat)
    then show "int (length ids) < 2 ^ 53" using assms(3,4) by linarith
  qed
  have w0: "wf_galloc ?ga0" using assms(2) small by (rule initial_alloc_wf)
  have tb: "0 \<le> ?tt" "?tt \<le> n" "0 \<le> ?td" "?td \<le> n"
    using target_of_bounds [OF n0 assms(4)] assms(2) by (simp_all add: valid_fracs_def)
  obtain ga1 where 1: "deficit_correction ?tt ?td ?ga0 = Some (Inr ga1)" "wf_galloc ga1"
    "shape ga1 = shape ?ga0" "total Train ga1 = max ?tt (total Train ?ga0)"
    "total Dev ga1 = max ?td (total Dev ?ga0)"
  proof -
    have a: "?tt \<le> sizes ?ga0" "?td \<le> sizes ?ga0" using tb sz by simp_all
    show ?thesis using deficit_correction_returns [OF k0 w0 a] that by blast
  qed
  have 2: "?tt \<le> total Train ga1" "?td \<le> total Dev ga1" using 1(4,5) by simp_all
  show ?thesis
    using final_reconciliation_props [OF 1(2) tb(1) tb(3) 2] 1(1,3) sh
    by (simp add: group_allocation_def Let_def)
qed

section \<open>Properties of grouping and assignment\<close>

subsection \<open>Grouping\<close>

lemma append_id_keys:
  "map fst (append_id k i gs) = (if k \<in> set (map fst gs) then map fst gs else map fst gs @ [k])"
  by (induction gs) force+

lemma append_id_distinct: "distinct (map fst gs) \<Longrightarrow> distinct (map fst (append_id k i gs))"
  by (simp add: append_id_keys)

lemma append_id_mset:
  "mset (concat (map snd (append_id k i gs))) = mset (concat (map snd gs)) + {#i#}"
  by (induction gs) auto

lemma group_items_Inr:
  assumes "fields_present items" "distinct (map fst gs)"
  shows "\<exists>groups. group_items items gs = Inr groups \<and> distinct (map fst groups) \<and>
     mset (concat (map snd groups)) = mset (concat (map snd gs)) + mset (map item_id items)"
  using assms
proof (induction items arbitrary: gs)
  case Nil
  then show ?case by simp
next
  case (Cons it items)
  obtain d t where dt: "difficulty_level it = Some d" "table it = Some t"
    using Cons.prems(1) by (auto simp: fields_present_def)
  have fp: "fields_present items" using Cons.prems(1) by (simp add: fields_present_def)
  have di: "distinct (map fst (append_id (d, t) (item_id it) gs))"
    using Cons.prems(2) by (rule append_id_distinct)
  show ?case using Cons.IH [OF fp di] dt by (auto simp: append_id_mset)
qed

lemma group_items_KeyError:
  "\<not> fields_present items \<Longrightarrow> group_items items gs = Inl KeyError"
proof (induction items arbitrary: gs)
  case Nil
  then show ?case by (simp add: fields_present_def)
next
  case (Cons it items)
  show ?case
  proof (cases "difficulty_level it = None \<or> table it = None")
    case True
    then show ?thesis by (auto split: option.splits)
  next
    case False
    then have "\<not> fields_present items" using Cons.prems by (auto simp: fields_present_def)
    then show ?thesis using Cons.IH False by (auto split: option.splits)
  qed
qed

lemma group_items_only_KeyError: "group_items items gs = Inl e \<Longrightarrow> e = KeyError"
  by (induction items arbitrary: gs) (auto split: option.splits)

subsection \<open>Slicing\<close>

lemma py_slice_subset: "set (py_slice xs lo hi) \<subseteq> set xs"
  unfolding py_slice_def Let_def by (meson order_trans set_drop_subset set_take_subset)

lemma py_slice_head: "0 \<le> t \<Longrightarrow> py_slice xs None (Some t) = take (nat t) xs"
  by (simp add: py_slice_def slice_index_def Let_def min_def)

lemma py_slice_mid:
  "0 \<le> t \<Longrightarrow> 0 \<le> d \<Longrightarrow> py_slice xs (Some t) (Some (t + d)) = take (nat d) (drop (nat t) xs)"
  by (auto simp: py_slice_def slice_index_def Let_def min_def nat_add_distrib take_all_iff)

lemma py_slice_tail:
  "0 \<le> t \<Longrightarrow> 0 \<le> d \<Longrightarrow> py_slice xs (Some (t + d)) None = drop (nat t + nat d) xs"
  by (auto simp: py_slice_def slice_index_def Let_def min_def nat_add_distrib)

lemma slices_partition:
  assumes "0 \<le> t" "0 \<le> d"
  shows "py_slice xs None (Some t) @ py_slice xs (Some t) (Some (t + d)) @ py_slice xs (Some (t + d)) None = xs"
proof -
  have "take (nat d) (drop (nat t) xs) @ drop (nat t + nat d) xs = drop (nat t) xs"
    by (metis add.commute append_take_drop_id drop_drop)
  then show ?thesis using assms by (simp add: py_slice_head py_slice_mid py_slice_tail)
qed


subsection \<open>The assignment loop\<close>

lemma perm_shuffle_mset:
  assumes "perm_shuffle shuffle" "shuffle g xs = (ys, g')"
  shows "mset ys = mset xs"
proof -
  have "mset (fst (shuffle g xs)) = mset xs" using assms(1) unfolding perm_shuffle_def by blast
  then show ?thesis using assms(2) by simp
qed

lemma perm_shuffle_set:
  assumes "perm_shuffle shuffle" "shuffle g xs = (ys, g')"
  shows "set ys = set xs"
  using perm_shuffle_mset [OF assms] by (rule mset_eq_setD)

lemma perm_shuffle_length:
  assumes "perm_shuffle shuffle" "shuffle g xs = (ys, g')"
  shows "length ys = length xs"
  using perm_shuffle_mset [OF assms] by (rule mset_eq_length)

lemma assign_ids_subset:
  assumes "perm_shuffle shuffle" "assign_ids shuffle ga gs rnd (a, b, c) = Inr (tr, dv, te)"
  shows "set tr \<union> set dv \<union> set te \<subseteq> set a \<union> set b \<union> set c \<union> set (concat (map snd gs))"
  using assms(2)
proof (induction gs arbitrary: rnd a b c)
  case Nil
  then show ?case by auto
next
  case (Cons g gs)
  obtain k ids where g: "g = (k, ids)" by (cases g)
  obtain ys rnd' where sh: "shuffle rnd ids = (ys, rnd')" by (cases "shuffle rnd ids")
  have ys: "set ys = set ids" using assms(1) sh by (rule perm_shuffle_set)
  obtain v where v: "map_of ga k = Some v"
    using Cons.prems g sh by (cases "map_of ga k") auto
  let ?t = "train v" and ?d = "dev v"
  have r: "assign_ids shuffle ga gs rnd'
      (a @ py_slice ys None (Some ?t), b @ py_slice ys (Some ?t) (Some (?t + ?d)),
       c @ py_slice ys (Some (?t + ?d)) None) = Inr (tr, dv, te)"
    using Cons.prems g sh v by (simp add: Let_def)
  have s1: "set (py_slice ys None (Some ?t)) \<subseteq> set ids"
    and s2: "set (py_slice ys (Some ?t) (Some (?t + ?d))) \<subseteq> set ids"
    and s3: "set (py_slice ys (Some (?t + ?d)) None) \<subseteq> set ids"
    using py_slice_subset [of ys] ys by simp_all
  have "set tr \<union> set dv \<union> set te \<subseteq>
      set (a @ py_slice ys None (Some ?t)) \<union> set (b @ py_slice ys (Some ?t) (Some (?t + ?d))) \<union>
      set (c @ py_slice ys (Some (?t + ?d)) None) \<union> set (concat (map snd gs))"
    using r by (rule Cons.IH)
  also have "\<dots> \<subseteq> set a \<union> set b \<union> set c \<union> set (concat (map snd (g # gs)))"
    using s1 s2 s3 unfolding g by (simp only: set_append list.map concat.simps snd_conv) blast
  finally show ?case .
qed

lemma assign_ids_mset:
  assumes "perm_shuffle shuffle" "wf_galloc ga" "set (map fst gs) \<subseteq> set (map fst ga)"
  shows "\<exists>tr dv te. assign_ids shuffle ga gs rnd (a, b, c) = Inr (tr, dv, te) \<and>
     mset tr + mset dv + mset te = mset a + mset b + mset c + mset (concat (map snd gs))"
  using assms(3)
proof (induction gs arbitrary: rnd a b c)
  case Nil
  then show ?case by simp
next
  case (Cons g gs)
  obtain k ids where g: "g = (k, ids)" by (cases g)
  obtain ys rnd' where sh: "shuffle rnd ids = (ys, rnd')" by (cases "shuffle rnd ids")
  have ys: "mset ys = mset ids" using assms(1) sh by (rule perm_shuffle_mset)
  have "k \<in> set (map fst ga)" using Cons.prems g by simp
  then obtain v where v: "map_of ga k = Some v" by (metis map_of_eq_None_iff not_Some_eq set_map)
  then have "(k, v) \<in> set ga" by (rule map_of_SomeD)
  then have wv: "wf_alloc v" using assms(2) by (auto simp: wf_galloc_def)
  let ?t = "train v" and ?d = "dev v"
  let ?c1 = "py_slice ys None (Some ?t)" and ?c2 = "py_slice ys (Some ?t) (Some (?t + ?d))"
    and ?c3 = "py_slice ys (Some (?t + ?d)) None"
  have "?c1 @ ?c2 @ ?c3 = ys" using wv by (intro slices_partition) (simp_all add: wf_alloc_def)
  then have "mset ?c1 + mset ?c2 + mset ?c3 = mset ys" by (metis mset_append add.assoc)
  then have parts: "mset ?c1 + mset ?c2 + mset ?c3 = mset ids" using ys by simp
  have sub: "set (map fst gs) \<subseteq> set (map fst ga)" using Cons.prems by simp
  obtain tr dv te where r: "assign_ids shuffle ga gs rnd' (a @ ?c1, b @ ?c2, c @ ?c3) = Inr (tr, dv, te)"
    "mset tr + mset dv + mset te = mset (a @ ?c1) + mset (b @ ?c2) + mset (c @ ?c3) + mset (concat (map snd gs))"
    using Cons.IH [OF sub] by blast
  have "assign_ids shuffle ga (g # gs) rnd (a, b, c) = Inr (tr, dv, te)"
    using r(1) g sh v by (simp add: Let_def)
  moreover have "mset tr + mset dv + mset te = mset a + mset b + mset c + mset (concat (map snd (g # gs)))"
    using r(2) parts g by (simp add: algebra_simps)
  ultimately show ?case by blast
qed

lemma counts_Cons:
  "counts s ga ((k, ids) # gs) = (case map_of ga k of None \<Rightarrow> 0 | Some v \<Rightarrow> cur s v) + counts s ga gs"
  by (simp add: counts_def)

lemma assign_ids_length_train:
  assumes "perm_shuffle shuffle" "wf_galloc ga"
  shows "\<forall>(k, ids) \<in> set gs. \<forall>v. map_of ga k = Some v \<longrightarrow> size_g v = int (length ids) \<Longrightarrow>
    assign_ids shuffle ga gs rnd (a, b, c) = Inr (tr, dv, te) \<Longrightarrow>
    int (length tr) = int (length a) + counts Train ga gs"
proof (induction gs arbitrary: rnd a b c)
  case Nil
  then show ?case by (simp add: counts_def)
next
  case (Cons g gs)
  obtain k ids where g: "g = (k, ids)" by (cases g)
  obtain ys rnd' where sh: "shuffle rnd ids = (ys, rnd')" by (cases "shuffle rnd ids")
  have ys: "length ys = length ids" using assms(1) sh by (rule perm_shuffle_length)
  obtain v where v: "map_of ga k = Some v"
    using Cons.prems(2) g sh by (cases "map_of ga k") auto
  then have "(k, v) \<in> set ga" by (rule map_of_SomeD)
  then have wv: "wf_alloc v" using assms(2) by (auto simp: wf_galloc_def)
  have sz: "size_g v = int (length ys)" using Cons.prems(1) g v ys by simp
  let ?t = "train v" and ?d = "dev v"
  let ?c1 = "py_slice ys None (Some ?t)" and ?c2 = "py_slice ys (Some ?t) (Some (?t + ?d))"
    and ?c3 = "py_slice ys (Some (?t + ?d)) None"
  have r: "assign_ids shuffle ga gs rnd' (a @ ?c1, b @ ?c2, c @ ?c3) = Inr (tr, dv, te)"
    using Cons.prems(2) g sh v by (simp add: Let_def)
  have rest: "\<forall>(k, ids) \<in> set gs. \<forall>v. map_of ga k = Some v \<longrightarrow> size_g v = int (length ids)"
    using Cons.prems(1) by simp
  have t0: "0 \<le> ?t" "?t \<le> int (length ys)" using wv sz by (simp_all add: wf_alloc_def)
  then have "min (length ys) (nat ?t) = nat ?t" by linarith
  then have l1: "int (length ?c1) = ?t" using t0 by (simp add: py_slice_head)
  have "int (length tr) = int (length (a @ ?c1)) + counts Train ga gs"
    using rest r by (rule Cons.IH)
  then show ?case using l1 v g by (simp add: counts_Cons)
qed

lemma assign_ids_length_dev:
  assumes "perm_shuffle shuffle" "wf_galloc ga" "\<forall>(k, v) \<in> set ga. 0 \<le> test v"
  shows "\<forall>(k, ids) \<in> set gs. \<forall>v. map_of ga k = Some v \<longrightarrow> size_g v = int (length ids) \<Longrightarrow>
    assign_ids shuffle ga gs rnd (a, b, c) = Inr (tr, dv, te) \<Longrightarrow>
    int (length dv) = int (length b) + counts Dev ga gs"
proof (induction gs arbitrary: rnd a b c)
  case Nil
  then show ?case by (simp add: counts_def)
next
  case (Cons g gs)
  obtain k ids where g: "g = (k, ids)" by (cases g)
  obtain ys rnd' where sh: "shuffle rnd ids = (ys, rnd')" by (cases "shuffle rnd ids")
  have ys: "length ys = length ids" using assms(1) sh by (rule perm_shuffle_length)
  obtain v where v: "map_of ga k = Some v"
    using Cons.prems(2) g sh by (cases "map_of ga k") auto
  then have mem: "(k, v) \<in> set ga" by (rule map_of_SomeD)
  then have wv: "wf_alloc v" using assms(2) by (auto simp: wf_galloc_def)
  have tv: "0 \<le> test v" using assms(3) mem by auto
  have sz: "size_g v = int (length ys)" using Cons.prems(1) g v ys by simp
  let ?t = "train v" and ?d = "dev v"
  let ?c1 = "py_slice ys None (Some ?t)" and ?c2 = "py_slice ys (Some ?t) (Some (?t + ?d))"
    and ?c3 = "py_slice ys (Some (?t + ?d)) None"
  have r: "assign_ids shuffle ga gs rnd' (a @ ?c1, b @ ?c2, c @ ?c3) = Inr (tr, dv, te)"
    using Cons.prems(2) g sh v by (simp add: Let_def)
  have rest: "\<forall>(k, ids) \<in> set gs. \<forall>v. map_of ga k = Some v \<longrightarrow> size_g v = int (length ids)"
    using Cons.prems(1) by simp
  have t0: "0 \<le> ?t" "0 \<le> ?d" "?t + ?d \<le> int (length ys)"
    using wv sz tv by (simp_all add: wf_alloc_def)
  then have "min (length ys - nat ?t) (nat ?d) = nat ?d" by linarith
  then have l2: "int (length ?c2) = ?d" using t0 by (simp add: py_slice_mid)
  have "int (length dv) = int (length (b @ ?c2)) + counts Dev ga gs"
    using rest r by (rule Cons.IH)
  then show ?case using l2 v g by (simp add: counts_Cons)
qed

section \<open>Properties of the whole run\<close>

lemma counts_keys:
  "counts s ga gs = sum_list (map (\<lambda>k. case map_of ga k of None \<Rightarrow> 0 | Some v \<Rightarrow> cur s v) (map fst gs))"
  by (simp add: counts_def comp_def case_prod_unfold)

lemma total_keys:
  assumes "distinct (map fst ga)"
  shows "total s ga = sum_list (map (\<lambda>k. case map_of ga k of None \<Rightarrow> 0 | Some v \<Rightarrow> cur s v) (map fst ga))"
proof -
  have "\<forall>x \<in> set ga. (case x of (k, v) \<Rightarrow> cur s v) =
      (case map_of ga (fst x) of None \<Rightarrow> 0 | Some v \<Rightarrow> cur s v)"
    using assms by (auto simp: map_of_is_SomeI)
  then have "map (\<lambda>(k, v). cur s v) ga = map (\<lambda>x. case map_of ga (fst x) of None \<Rightarrow> 0 | Some v \<Rightarrow> cur s v) ga"
    by (intro map_cong) auto
  then show ?thesis by (simp only: total_def map_map comp_def)
qed

lemma sum_list_image_mset: "sum_list (map f xs) = sum_mset (image_mset f (mset xs))"
  by (induction xs) auto

lemma counts_total:
  assumes "distinct (map fst ga)" "mset (map fst gs) = mset (map fst ga)"
  shows "counts s ga gs = total s ga"
proof -
  let ?f = "\<lambda>k. case map_of ga k of None \<Rightarrow> 0 | Some v \<Rightarrow> cur s v"
  have "sum_list (map ?f (map fst gs)) = sum_mset (image_mset ?f (mset (map fst gs)))"
    by (rule sum_list_image_mset)
  also have "\<dots> = sum_mset (image_mset ?f (mset (map fst ga)))" by (simp only: assms(2))
  also have "\<dots> = sum_list (map ?f (map fst ga))" by (rule sum_list_image_mset [symmetric])
  finally show ?thesis using total_keys [OF assms(1), of s] by (simp only: counts_keys)
qed

subsection \<open>Selecting the records\<close>

lemma id_to_item_Some:
  assumes "distinct (map item_id items)" "it \<in> set items"
  shows "id_to_item items (item_id it) = Some it"
proof -
  let ?xs = "rev (map (\<lambda>it. (item_id it, it)) items)"
  have "map fst ?xs = rev (map item_id items)" by (simp add: rev_map comp_def)
  then have "distinct (map fst ?xs)" using assms(1) by simp
  moreover have "(item_id it, it) \<in> set ?xs" using assms(2) by auto
  ultimately show ?thesis unfolding id_to_item_def by (rule map_of_is_SomeI)
qed

lemma lookup_all_map:
  "\<forall>x \<in> set xs. m (f x) = Some x \<Longrightarrow> lookup_all m (map f xs) = Inr xs"
  by (induction xs) auto

lemma select_filter:
  assumes "distinct (map item_id items)"
  shows "select (id_to_item items) (map item_id items) part
    = Inr (filter (\<lambda>it. item_id it \<in> set part) items)"
proof -
  have "filter (\<lambda>i. i \<in> set part) (map item_id items)
    = map item_id (filter (\<lambda>it. item_id it \<in> set part) items)"
    by (simp add: filter_map comp_def)
  moreover have "\<forall>x \<in> set (filter (\<lambda>it. item_id it \<in> set part) items).
      id_to_item items (item_id x) = Some x"
    using id_to_item_Some [OF assms] by simp
  ultimately show ?thesis unfolding select_def by (simp only: lookup_all_map)
qed



subsection \<open>The run as a whole\<close>

lemma mset_concat_map: "mset (concat (map f xs)) = (\<Sum>x\<in>#mset xs. mset (f x))"
  by (induction xs) auto

lemma mset_concat_sorted: "mset (concat (map snd (sort_key fst gs))) = mset (concat (map snd gs))"
  by (simp add: mset_concat_map)

lemma group_items_mset:
  assumes "group_items items [] = Inr groups"
  shows "distinct (map fst groups)" and "mset (concat (map snd groups)) = mset (map item_id items)"
proof -
  have fp: "fields_present items" using assms group_items_KeyError [of items "[]"] by auto
  show "distinct (map fst groups)" "mset (concat (map snd groups)) = mset (map item_id items)"
    using group_items_Inr [OF fp, of "[]"] assms by auto
qed

lemma shape_size_of_group:
  assumes "shape ga = group_sizes groups" "distinct (map fst groups)"
    "(k, ids) \<in> set groups" "map_of ga k = Some v"
  shows "size_g v = int (length ids)"
proof -
  have "(k, v) \<in> set ga" using assms(4) by (rule map_of_SomeD)
  then have "(k, size_g v) \<in> set (shape ga)" by (force simp: shape_def)
  then have "(k, size_g v) \<in> set (group_sizes groups)" using assms(1) by simp
  then obtain ids' where i: "(k, ids') \<in> set groups" "size_g v = int (length ids')"
    by (auto simp: group_sizes_def)
  have "ids = ids'" using assms(2,3) i(1) by (rule eq_key_imp_eq_value)
  then show ?thesis using i(2) by simp
qed

lemma group_sizes_keys: "map fst (group_sizes groups) = map fst groups"
  by (simp add: group_sizes_def comp_def case_prod_unfold)

lemma run_facts:
  assumes "perm_shuffle shuffle" "valid_fracs cfg" "fields_present items"
    "int (length items) < 2 ^ 53"
  shows "\<exists>groups ga tr dv te.
     group_items items [] = Inr groups \<and>
     group_allocation cfg (int (length items)) groups = Some (Inr ga) \<and>
     wf_galloc ga \<and> shape ga = group_sizes groups \<and>
     assign_ids shuffle ga (sort_key fst groups) (Random (SEED cfg)) ([], [], []) = Inr (tr, dv, te) \<and>
     mset tr + mset dv + mset te = mset (map item_id items) \<and>
     int (length tr) = target_of (int (length items)) (TRAIN_FRAC cfg) \<and>
     ((\<forall>(k, v) \<in> set ga. 0 \<le> test v) \<longrightarrow>
        int (length dv) = target_of (int (length items)) (DEV_FRAC cfg))"
proof -
  let ?n = "int (length items)"
  obtain groups where g: "group_items items [] = Inr groups" "distinct (map fst groups)"
    "mset (concat (map snd groups)) = mset (map item_id items)"
    using group_items_Inr [OF assms(3), of "[]"] by auto
  have "length (concat (map snd groups)) = length (map item_id items)"
    using g(3) by (rule mset_eq_length)
  then have n: "?n = int (length (concat (map snd groups)))" by simp
  obtain ga where a: "group_allocation cfg ?n groups = Some (Inr ga)" "wf_galloc ga"
    "shape ga = group_sizes groups" "total Train ga = target_of ?n (TRAIN_FRAC cfg)"
    "total Dev ga = target_of ?n (DEV_FRAC cfg)"
    using group_allocation_returns [OF g(2) assms(2) n assms(4)] by blast
  let ?gs = "sort_key fst groups"
  have "map fst (shape ga) = map fst ga" by (simp add: shape_def comp_def case_prod_unfold)
  then have keys: "map fst ga = map fst groups" using a(3) by (simp add: group_sizes_keys)
  have dk: "distinct (map fst ga)" using keys g(2) by simp
  have mk: "mset (map fst ?gs) = mset (map fst ga)" using keys by simp
  have sub: "set (map fst ?gs) \<subseteq> set (map fst ga)" using keys by simp
  obtain tr dv te where r: "assign_ids shuffle ga ?gs (Random (SEED cfg)) ([], [], []) = Inr (tr, dv, te)"
    "mset tr + mset dv + mset te = mset [] + mset [] + mset [] + mset (concat (map snd ?gs))"
    using assign_ids_mset [OF assms(1) a(2) sub] by blast
  have m: "mset tr + mset dv + mset te = mset (map item_id items)"
    using r(2) g(3) by (simp add: mset_concat_sorted)
  have sz: "\<forall>(k, ids) \<in> set ?gs. \<forall>v. map_of ga k = Some v \<longrightarrow> size_g v = int (length ids)"
    using shape_size_of_group [OF a(3) g(2)] by auto
  have lt: "int (length tr) = target_of ?n (TRAIN_FRAC cfg)"
    using assign_ids_length_train [OF assms(1) a(2) sz r(1)] counts_total [OF dk mk] a(4) by simp
  have ld: "(\<forall>(k, v) \<in> set ga. 0 \<le> test v) \<longrightarrow> int (length dv) = target_of ?n (DEV_FRAC cfg)"
  proof
    assume t: "\<forall>(k, v) \<in> set ga. 0 \<le> test v"
    show "int (length dv) = target_of ?n (DEV_FRAC cfg)"
      using assign_ids_length_dev [OF assms(1) a(2) t sz r(1)] counts_total [OF dk mk] a(5) by simp
  qed
  show ?thesis using g(1) a(1,2,3) r(1) m lt ld by blast
qed

lemma assert_iff_distinct:
  assumes "mset tr + mset dv + mset te = mset ids"
  shows "int (card (set tr \<union> set dv \<union> set te)) = int (length ids) \<longleftrightarrow> distinct ids"
proof -
  have "set_mset (mset tr + mset dv + mset te) = set ids" using assms by simp
  then have "set tr \<union> set dv \<union> set te = set ids" by simp
  then show ?thesis using card_distinct [of ids] distinct_card [of ids] by auto
qed

lemma assignment_unfold:
  assumes "group_items items [] = Inr groups"
    "group_allocation cfg (int (length items)) groups = Some (Inr ga)"
    "assign_ids shuffle ga (sort_key fst groups) (Random (SEED cfg)) ([], [], []) = Inr (tr, dv, te)"
  shows "assignment cfg Random shuffle items =
    (if int (card (set tr \<union> set dv \<union> set te)) = int (length items)
     then Some (Inr (tr, dv, te)) else Some (Inl AssertionError))"
  using assms by (simp add: assignment_def Let_def)

lemma split_pool_unfold:
  assumes "assignment cfg Random shuffle items = Some (Inr (tr, dv, te))"
    "distinct (map item_id items)"
  shows "split_pool cfg Random shuffle items =
    Some (Inr \<lparr>train_list = filter (\<lambda>it. item_id it \<in> set tr) items,
                dev_list = filter (\<lambda>it. item_id it \<in> set dv) items,
                test_list = filter (\<lambda>it. item_id it \<in> set te) items\<rparr>)"
  using assms(1) by (simp add: split_pool_def Let_def select_filter [OF assms(2)])

lemma assignment_Inr_distinct:
  assumes "perm_shuffle shuffle" "assignment cfg Random shuffle items = Some (Inr (tr, dv, te))"
  shows "distinct (map item_id items)" and "set tr \<union> set dv \<union> set te = set (map item_id items)"
proof -
  obtain groups where g: "group_items items [] = Inr groups"
    using assms(2) by (cases "group_items items []") (auto simp: assignment_def Let_def)
  obtain ga where a: "group_allocation cfg (int (length items)) groups = Some (Inr ga)"
    using assms(2) g
    by (cases "group_allocation cfg (int (length items)) groups")
       (auto simp: assignment_def Let_def split: sum.splits)
  obtain tr' dv' te' where r:
    "assign_ids shuffle ga (sort_key fst groups) (Random (SEED cfg)) ([], [], []) = Inr (tr', dv', te')"
    using assms(2) g a
    by (cases "assign_ids shuffle ga (sort_key fst groups) (Random (SEED cfg)) ([], [], [])")
       (auto simp: assignment_def Let_def)
  have u: "assignment cfg Random shuffle items =
    (if int (card (set tr' \<union> set dv' \<union> set te')) = int (length items)
     then Some (Inr (tr', dv', te')) else Some (Inl AssertionError))"
    using g a r by (rule assignment_unfold)
  then have eq: "tr' = tr" "dv' = dv" "te' = te"
    and c: "card (set tr \<union> set dv \<union> set te) = length items"
    using assms(2) by (auto split: if_splits)
  have "set tr \<union> set dv \<union> set te \<subseteq> set [] \<union> set [] \<union> set [] \<union> set (concat (map snd (sort_key fst groups)))"
    using assms(1) r unfolding eq by (rule assign_ids_subset)
  moreover have "set (concat (map snd (sort_key fst groups))) = set (map item_id items)"
  proof -
    have "mset (concat (map snd (sort_key fst groups))) = mset (map item_id items)"
      using group_items_mset(2) [OF g] by (simp only: mset_concat_sorted)
    then show ?thesis by (rule mset_eq_setD)
  qed
  ultimately have sub: "set tr \<union> set dv \<union> set te \<subseteq> set (map item_id items)" by simp
  have "card (set tr \<union> set dv \<union> set te) \<le> card (set (map item_id items))"
    using sub by (intro card_mono) simp_all
  moreover have "card (set (map item_id items)) \<le> length (map item_id items)" by (rule card_length)
  ultimately have ce: "card (set (map item_id items)) = length (map item_id items)"
    and cu: "card (set tr \<union> set dv \<union> set te) = card (set (map item_id items))"
    using c by simp_all
  show "distinct (map item_id items)" using ce by (rule card_distinct)
  show "set tr \<union> set dv \<union> set te = set (map item_id items)"
    using sub cu by (intro card_subset_eq) simp_all
qed

lemma split_pool_Inr:
  assumes "split_pool cfg Random shuffle items = Some (Inr out)"
  shows "\<exists>tr dv te. assignment cfg Random shuffle items = Some (Inr (tr, dv, te))"
  using assms
  by (cases "assignment cfg Random shuffle items")
     (auto simp: split_pool_def Let_def split: sum.splits prod.splits)

section \<open>Facts about the concrete inputs\<close>

lemma rev_shuffle_perm: "perm_shuffle rev_shuffle"
  by (simp add: perm_shuffle_def rev_shuffle_def)

lemma default_config_valid: "valid_fracs default_config"
  by (simp add: valid_fracs_def default_config_def)

lemma scenario_pool_fields: "fields_present scenario_pool"
  by (simp add: fields_present_def scenario_pool_def mk_item_def)

lemma scenario_pool_distinct: "distinct (map item_id scenario_pool)"
  by (simp add: scenario_pool_def mk_item_def)

lemma scenario_pool_small: "int (length scenario_pool) < 2 ^ 53"
  by (simp add: scenario_pool_def)


lemma filter3_mset:
  assumes "\<forall>x \<in> set xs. (P x \<or> Q x \<or> R x) \<and> \<not> (P x \<and> Q x) \<and> \<not> (P x \<and> R x) \<and> \<not> (Q x \<and> R x)"
  shows "mset (filter P xs) + mset (filter Q xs) + mset (filter R xs) = mset xs"
  using assms by (induction xs) auto

lemma three_disjoint:
  assumes "mset tr + mset dv + mset te = mset ids" "distinct ids"
  shows "set tr \<inter> set dv = {}" "set tr \<inter> set te = {}" "set dv \<inter> set te = {}"
    "distinct tr" "distinct dv" "distinct te" "set tr \<union> set dv \<union> set te = set ids"
proof -
  have "mset (tr @ dv @ te) = mset ids" using assms(1) by (simp add: add.assoc)
  then have d: "distinct (tr @ dv @ te)" using assms(2) by (metis mset_eq_imp_distinct_iff)
  show "set tr \<inter> set dv = {}" "set tr \<inter> set te = {}" "set dv \<inter> set te = {}"
    "distinct tr" "distinct dv" "distinct te" using d by auto
  have "set_mset (mset tr + mset dv + mset te) = set ids" using assms(1) by simp
  then show "set tr \<union> set dv \<union> set te = set ids" by simp
qed

lemma filter3_length:
  assumes "\<forall>x \<in> set xs. (P x \<or> Q x \<or> R x) \<and> \<not> (P x \<and> Q x) \<and> \<not> (P x \<and> R x) \<and> \<not> (Q x \<and> R x)"
  shows "length (filter P xs) + length (filter Q xs) + length (filter R xs) = length xs"
  using assms by (induction xs) auto


lemma initial_alloc_test_frac:
  "initial_alloc (cfg\<lparr>TEST_FRAC := t\<rparr>) groups = initial_alloc cfg groups"
  by (simp add: initial_alloc_def floor_alloc_def)

lemma group_allocation_test_frac:
  "group_allocation (cfg\<lparr>TEST_FRAC := t\<rparr>) n groups = group_allocation cfg n groups"
  by (simp add: group_allocation_def initial_alloc_test_frac)

lemma assignment_test_frac:
  "assignment (cfg\<lparr>TEST_FRAC := t\<rparr>) Random shuffle items = assignment cfg Random shuffle items"
  by (simp add: assignment_def group_allocation_test_frac Let_def
      split: sum.split option.split prod.split)

lemma scenario_run: "split_pool default_config nat rev_shuffle scenario_pool = Some (Inr scenario_result)"
  by code_simp

lemma scenario_run_written:
  "split_pool default_config nat rev_shuffle scenario_pool =
     Some (write_out scenario_pool ([7, 6, 5, 4, 3, 10, 9], [2, 8], [1]))"
  by code_simp


section \<open>Rounding errors and the train pass\<close>


lemma fl_err_upper:
  assumes "0 \<le> x"
  shows "fl x \<le> x + x / 2 ^ 53 + pow2 (- 1075)"
proof (cases "x = 0")
  case True
  then show ?thesis using pow2_pos [of "- 1075"] by (simp add: fl_def)
next
  case False
  then have xp: "0 < x" "x \<noteq> 0" using assms by auto
  define e where "e = max (expo x) (- 1022)"
  define u where "u = pow2 (e - 52)"
  have u: "0 < u" unfolding u_def by (rule pow2_pos)
  have flx: "fl x = of_int (py_round (x / u)) * u"
    using xp by (simp add: fl_def Let_def u_def e_def)
  have "of_int (py_round (x / u)) * u \<le> (x / u + 1 / 2) * u"
    using py_round_upper [of "x / u"] u by (simp only: mult_right_mono less_imp_le)
  also have "\<dots> = x + u / 2" using u by (simp add: field_simps)
  finally have a: "fl x \<le> x + u / 2" by (simp only: flx)
  have b: "u / 2 \<le> x / 2 ^ 53 + pow2 (- 1075)"
  proof (cases "- 1022 \<le> expo x")
    case True
    then have ee: "e = expo x" by (simp add: e_def)
    have lo: "pow2 e \<le> x" using expo_bounds(1) [OF xp(2)] xp ee by simp
    have "u = pow2 e / 2 ^ 52" unfolding u_def pow2_diff by (simp add: pow2_def)
    then have "u / 2 = pow2 e / 2 ^ 53" by simp
    also have "\<dots> \<le> x / 2 ^ 53" using lo by (simp add: divide_right_mono)
    finally show ?thesis using pow2_pos [of "- 1075"] by simp
  next
    case False
    then have ee: "e = - 1022" by (simp add: e_def)
    have "u = pow2 (- 1075 + 1)" unfolding u_def ee by simp
    also have "\<dots> = pow2 (- 1075) * 2" 
      using pow2_diff [of "- 1075" "- 1"] by (simp add: pow2_def)
    finally have "u / 2 = pow2 (- 1075)" by simp
    then show ?thesis using xp by simp
  qed
  show ?thesis using a b by simp
qed

lemma pow2_tiny: "pow2 (- 1075) \<le> 1 / 2 ^ 53"
proof -
  have "pow2 (- 1075) \<le> pow2 (- 53)" by (rule pow2_mono) simp
  then show ?thesis by (simp add: pow2_def)
qed

lemma py_round_below_half:
  assumes "x < of_int m + 1 / 2"
  shows "py_round x \<le> m"
proof -
  have "of_int (py_round x) \<le> x + 1 / 2" by (rule py_round_upper)
  also have "\<dots> < of_int m + 1" using assms by simp
  finally have "(of_int (py_round x) :: rat) < of_int (m + 1)" by simp
  then have "py_round x < m + 1" by (simp only: of_int_less_iff)
  then show ?thesis by simp
qed

lemma fmul_exact: "0 \<le> g \<Longrightarrow> g < 2 ^ 53 \<Longrightarrow> fmul g f = fl (of_int g * f)"
  by (simp add: fmul_def fl_of_int)

text \<open>The exact product lies below the successor of the floor of the rounded product.\<close>

lemma floor_fmul_upper:
  assumes "0 \<le> g" "g < 2 ^ 53" "0 \<le> f" "f \<le> 1"
  shows "of_int g * f < of_int \<lfloor>fmul g f\<rfloor> + 1"
proof (rule ccontr)
  assume "\<not> of_int g * f < of_int \<lfloor>fmul g f\<rfloor> + 1"
  then have h: "of_int (\<lfloor>fmul g f\<rfloor> + 1) \<le> of_int g * f" by simp
  have f0: "0 \<le> \<lfloor>fmul g f\<rfloor>" using fmul_nonneg [OF assms(1,3)] by simp
  have "fmul g f \<le> of_int g" using assms by (rule fmul_le)
  then have "\<lfloor>fmul g f\<rfloor> \<le> g" by (simp add: floor_le_iff)
  moreover have "of_int g * f \<le> (of_int g :: rat)" using assms by (simp add: mult_left_le)
  ultimately have b: "\<lfloor>fmul g f\<rfloor> + 1 < 2 ^ 53"
  proof -
    have "(of_int (\<lfloor>fmul g f\<rfloor> + 1) :: rat) \<le> of_int g"
      using h \<open>of_int g * f \<le> (of_int g :: rat)\<close> by (rule order_trans)
    then have "\<lfloor>fmul g f\<rfloor> + 1 \<le> g" by (simp only: of_int_le_iff)
    then show ?thesis using assms(2) by linarith
  qed
  have "of_int (\<lfloor>fmul g f\<rfloor> + 1) \<le> fl (of_int g * f)"
    using h _ b by (rule fl_ge_int) (use f0 in simp)
  then have "of_int (\<lfloor>fmul g f\<rfloor> + 1) \<le> fmul g f" by (simp only: fmul_exact [OF assms(1,2)])
  then have "\<lfloor>fmul g f\<rfloor> + 1 \<le> \<lfloor>fmul g f\<rfloor>" by (simp only: le_floor_iff)
  then show False by simp
qed

text \<open>The floor of the rounded product exceeds the exact product by a relative error at most.\<close>

lemma floor_fmul_lower:
  assumes "0 \<le> g" "g < 2 ^ 53" "0 \<le> f" "f \<le> 1"
  shows "of_int \<lfloor>fmul g f\<rfloor> \<le> of_int g * f + of_int g / 2 ^ 52"
proof (cases "g = 0")
  case True
  then show ?thesis by (simp add: fmul_def fl_def)
next
  case False
  then have g1: "(1::rat) \<le> of_int g" using assms(1) by simp
  have x0: "0 \<le> of_int g * f" using assms by simp
  have xg: "of_int g * f \<le> (of_int g :: rat)" using assms by (simp add: mult_left_le)
  have "of_int \<lfloor>fmul g f\<rfloor> \<le> fmul g f" by simp
  also have "\<dots> = fl (of_int g * f)" by (rule fmul_exact [OF assms(1,2)])
  also have "\<dots> \<le> of_int g * f + of_int g * f / 2 ^ 53 + pow2 (- 1075)"
    using x0 by (rule fl_err_upper)
  also have "\<dots> \<le> of_int g * f + of_int g / 2 ^ 53 + of_int g / 2 ^ 53"
  proof -
    have "of_int g * f / 2 ^ 53 \<le> (of_int g :: rat) / 2 ^ 53" using xg by (simp add: divide_right_mono)
    moreover have "pow2 (- 1075) \<le> (of_int g :: rat) / 2 ^ 53"
    proof -
      have "pow2 (- 1075) \<le> 1 / 2 ^ 53" by (rule pow2_tiny)
      also have "\<dots> \<le> (of_int g :: rat) / 2 ^ 53" using g1 by (simp add: divide_right_mono)
      finally show ?thesis .
    qed
    ultimately show ?thesis by linarith
  qed
  also have "\<dots> = of_int g * f + of_int g / 2 ^ 52" by simp
  finally show ?thesis .
qed


text \<open>Per group: the exact product is at most the floor count, plus one if the group has
  capacity, plus a rounding term.\<close>

lemma stratum_bound:
  assumes "valid_fracs cfg" "TRAIN_FRAC cfg + DEV_FRAC cfg \<le> 1 + 1 / 2 ^ 52"
    "0 \<le> g" "g < 2 ^ 53"
  shows "of_int g * TRAIN_FRAC cfg \<le>
     of_int (train (floor_alloc cfg g)) +
     (if 0 < size_g (floor_alloc cfg g) - train (floor_alloc cfg g) - dev (floor_alloc cfg g)
      then 1 else 0) + of_int g / 2 ^ 51"
proof -
  let ?T = "TRAIN_FRAC cfg" and ?D = "DEV_FRAC cfg"
  let ?a = "\<lfloor>fmul g ?T\<rfloor>" and ?b = "\<lfloor>fmul g ?D\<rfloor>"
  have v: "0 \<le> ?T" "?T \<le> 1" "0 \<le> ?D" "?D \<le> 1" using assms(1) by (simp_all add: valid_fracs_def)
  have fa: "train (floor_alloc cfg g) = ?a" "dev (floor_alloc cfg g) = ?b"
    "size_g (floor_alloc cfg g) = g" by (simp_all add: floor_alloc_def Let_def)
  have g0: "(0::rat) \<le> of_int g" using assms(3) by simp
  have up: "of_int g * ?T < of_int ?a + 1" using assms(3,4) v(1,2) by (rule floor_fmul_upper)
  show ?thesis
  proof (cases "0 < g - ?a - ?b")
    case True
    have "(0::rat) \<le> of_int g / 2 ^ 51" using g0 by simp
    then show ?thesis using up True by (simp add: fa)
  next
    case False
    then have "g - ?b \<le> ?a" by simp
    then have le: "(of_int g :: rat) - of_int ?b \<le> of_int ?a"
      by (metis of_int_diff of_int_le_iff)
    have lo: "of_int ?b \<le> of_int g * ?D + of_int g / 2 ^ 52"
      using assms(3,4) v(3,4) by (rule floor_fmul_lower)
    have "of_int g * (?T + ?D) \<le> of_int g * (1 + 1 / 2 ^ 52)"
      using assms(2) g0 by (rule mult_left_mono)
    then have "of_int g * ?T \<le> of_int g + of_int g / 2 ^ 52 - of_int g * ?D"
      by (simp add: algebra_simps)
    also have "\<dots> \<le> of_int g + of_int g / 2 ^ 52 - (of_int ?b - of_int g / 2 ^ 52)"
      using lo by simp
    also have "\<dots> = (of_int g - of_int ?b) + of_int g / 2 ^ 51" by simp
    also have "\<dots> \<le> of_int ?a + of_int g / 2 ^ 51" using le by simp
    finally show ?thesis using False by (simp add: fa)
  qed
qed


lemma sizes_Nil: "sizes [] = 0" by (simp add: sizes_def shape_def)

lemma sizes_Cons: "sizes ((k, v) # ga) = size_g v + sizes ga" by (simp add: sizes_def shape_def)

lemma initial_alloc_Cons:
  "initial_alloc cfg ((k, ids) # groups) =
     (k, floor_alloc cfg (int (length ids))) # initial_alloc cfg groups"
  by (simp add: initial_alloc_def)

text \<open>Summed over the groups: the exact product \<open>n * TRAIN_FRAC\<close> is at most the sum of
  the floor counts plus the number of groups with capacity, plus a rounding term.\<close>

lemma sum_bound:
  assumes "valid_fracs cfg" "TRAIN_FRAC cfg + DEV_FRAC cfg \<le> 1 + 1 / 2 ^ 52"
    "\<forall>(k, ids) \<in> set groups. int (length ids) < 2 ^ 53"
  shows "of_int (sizes (initial_alloc cfg groups)) * TRAIN_FRAC cfg \<le>
     of_int (total Train (initial_alloc cfg groups)) +
     of_int (int (length (filter (\<lambda>(k, v). 0 < size_g v - train v - dev v)
                            (initial_alloc cfg groups)))) +
     of_int (sizes (initial_alloc cfg groups)) / 2 ^ 51"
  using assms(3)
proof (induction groups)
  case Nil
  then show ?case by (simp add: initial_alloc_def sizes_Nil)
next
  case (Cons x groups)
  obtain k ids where x: "x = (k, ids)" by (cases x)
  let ?g = "int (length ids)"
  let ?v = "floor_alloc cfg ?g"
  let ?ga = "initial_alloc cfg groups"
  let ?P = "\<lambda>(k, v). 0 < size_g v - train v - dev v"
  let ?c = "if 0 < size_g ?v - train ?v - dev ?v then 1 else (0::rat)"
  have g: "?g < 2 ^ 53" using Cons.prems x by simp
  have sz: "size_g ?v = ?g" by (simp add: floor_alloc_def Let_def)
  have 1: "of_int ?g * TRAIN_FRAC cfg \<le> of_int (train ?v) + ?c + of_int ?g / 2 ^ 51"
    using stratum_bound [OF assms(1,2) _ g] by simp
  have 2: "of_int (sizes ?ga) * TRAIN_FRAC cfg \<le>
     of_int (total Train ?ga) + of_int (int (length (filter ?P ?ga))) + of_int (sizes ?ga) / 2 ^ 51"
    using Cons.IH Cons.prems by simp
  have s: "sizes (initial_alloc cfg (x # groups)) = ?g + sizes ?ga"
    by (simp add: x initial_alloc_Cons sizes_Cons sz)
  have t: "total Train (initial_alloc cfg (x # groups)) = train ?v + total Train ?ga"
    by (simp add: x initial_alloc_Cons)
  have c: "(of_int (int (length (filter ?P (initial_alloc cfg (x # groups))))) :: rat) =
     ?c + of_int (int (length (filter ?P ?ga)))"
    by (simp add: x initial_alloc_Cons)
  have "of_int (?g + sizes ?ga) * TRAIN_FRAC cfg =
     of_int ?g * TRAIN_FRAC cfg + of_int (sizes ?ga) * TRAIN_FRAC cfg"
    by (simp add: algebra_simps)
  also have "\<dots> \<le> (of_int (train ?v) + ?c + of_int ?g / 2 ^ 51) +
     (of_int (total Train ?ga) + of_int (int (length (filter ?P ?ga))) + of_int (sizes ?ga) / 2 ^ 51)"
    using 1 2 by (rule add_mono)
  also have "\<dots> = of_int (train ?v + total Train ?ga) +
     (?c + of_int (int (length (filter ?P ?ga)))) + of_int (?g + sizes ?ga) / 2 ^ 51"
    by (simp add: add_divide_distrib)
  finally show ?case unfolding s t c .
qed

lemma ranked_cap_count:
  "length (filter (\<lambda>(fr, k, cap). 0 < cap) (ranked s ga)) =
   length (filter (\<lambda>(k, v). 0 < size_g v - train v - dev v) ga)"
proof -
  let ?h = "\<lambda>(k, v). (fsub (ideal s v) (cur s v), k, size_g v - train v - dev v)"
  let ?Q = "\<lambda>(fr :: rat, k :: key, cap :: int). 0 < cap"
  have "length (filter ?Q (ranked s ga)) = size (filter_mset ?Q (mset (ranked s ga)))"
    by (simp only: mset_filter [symmetric] size_mset)
  also have "\<dots> = size (filter_mset ?Q (mset (map ?h ga)))" by (simp only: mset_ranked)
  also have "\<dots> = length (filter ?Q (map ?h ga))"
    by (simp only: mset_filter [symmetric] size_mset)
  also have "\<dots> = length (filter (?Q \<circ> ?h) ga)" by (simp only: filter_map length_map)
  also have "?Q \<circ> ?h = (\<lambda>(k, v). 0 < size_g v - train v - dev v)" by (auto simp: fun_eq_iff)
  finally show ?thesis .
qed

text \<open>The deficit of the train pass is at most the number of groups with capacity.\<close>

lemma train_deficit_bound:
  assumes "valid_fracs cfg" "TRAIN_FRAC cfg + DEV_FRAC cfg \<le> 1 + 1 / 2 ^ 52"
    "\<forall>(k, ids) \<in> set groups. int (length ids) < 2 ^ 53"
    "n = sizes (initial_alloc cfg groups)" "0 \<le> n" "n \<le> 2 ^ 48"
  shows "target_of n (TRAIN_FRAC cfg) - total Train (initial_alloc cfg groups) \<le>
     int (length (filter (\<lambda>(k, v). 0 < size_g v - train v - dev v) (initial_alloc cfg groups)))"
proof -
  let ?T = "TRAIN_FRAC cfg"
  let ?ga = "initial_alloc cfg groups"
  let ?A = "total Train ?ga"
  let ?c = "int (length (filter (\<lambda>(k, v). 0 < size_g v - train v - dev v) ?ga))"
  have v: "0 \<le> ?T" "?T \<le> 1" using assms(1) by (simp_all add: valid_fracs_def)
  have n53: "n < 2 ^ 53" using assms(6) by simp
  have nr: "(of_int n :: rat) \<le> 2 ^ 48" using assms(6)
    by (metis of_int_le_iff of_int_numeral of_int_power)
  have n0: "(0::rat) \<le> of_int n" using assms(5) by simp
  define x where "x = of_int n * ?T"
  have x0: "0 \<le> x" unfolding x_def using n0 v(1) by simp
  have xn: "x \<le> of_int n" unfolding x_def using n0 v(2) by (simp add: mult_left_le)
  have sb: "x \<le> of_int ?A + of_int ?c + of_int n / 2 ^ 51"
    unfolding x_def assms(4) using assms(1,2,3) by (rule sum_bound)
  have "fmul n ?T = fl x" unfolding x_def using assms(5) n53 by (rule fmul_exact)
  also have "\<dots> \<le> x + x / 2 ^ 53 + pow2 (- 1075)" using x0 by (rule fl_err_upper)
  also have "\<dots> \<le> (of_int ?A + of_int ?c + of_int n / 2 ^ 51) + of_int n / 2 ^ 53 + 1 / 2 ^ 53"
  proof -
    have "x / 2 ^ 53 \<le> of_int n / 2 ^ 53" using xn by (simp add: divide_right_mono)
    then show ?thesis using sb pow2_tiny by linarith
  qed
  also have "\<dots> < of_int (?A + ?c) + 1 / 2"
  proof -
    have "(of_int n :: rat) / 2 ^ 51 \<le> 2 ^ 48 / 2 ^ 51" using nr by (simp add: divide_right_mono)
    moreover have "(of_int n :: rat) / 2 ^ 53 \<le> 2 ^ 48 / 2 ^ 53" using nr by (simp add: divide_right_mono)
    ultimately show ?thesis by simp
  qed
  finally have "py_round (fmul n ?T) \<le> ?A + ?c" by (rule py_round_below_half)
  then show ?thesis by (simp add: target_of_def)
qed


lemma grant_empty: "grant s {} ga = ga"
  by (simp add: grant_def case_prod_unfold)

lemma grant_update:
  assumes "k \<notin> K"
  shows "grant s K (update_group k (add_units s 1) ga) = grant s (insert k K) ga"
  using assms by (auto simp: grant_def update_group_def)

text \<open>The walk grants one unit to each group of a set of groups, all of them with a
  positive stored capacity.\<close>

lemma walk_grants:
  assumes "distinct (map (\<lambda>x. fst (snd x)) fracs)"
  shows "\<exists>K. K \<subseteq> {k. \<exists>fr cap. (fr, k, cap) \<in> set fracs \<and> 0 < cap} \<and>
           fst (walk s fracs d ga) = grant s K ga"
  using assms
proof (induction fracs arbitrary: d ga)
  case Nil
  show ?case by (rule exI [of _ "{}"]) (simp add: grant_empty)
next
  case (Cons a fracs)
  obtain fr k cap where a: "a = (fr, k, cap)" by (cases a)
  have d: "distinct (map (\<lambda>x. fst (snd x)) fracs)" and nk: "k \<notin> (\<lambda>x. fst (snd x)) ` set fracs"
    using Cons.prems a by simp_all
  show ?case
  proof (cases "0 < d")
    case False
    show ?thesis by (rule exI [of _ "{}"]) (use False a in \<open>simp add: grant_empty\<close>)
  next
    case dp: True
    show ?thesis
    proof (cases "0 < cap")
      case True
      obtain K where K: "K \<subseteq> {k. \<exists>fr cap. (fr, k, cap) \<in> set fracs \<and> 0 < cap}"
        "fst (walk s fracs (d - 1) (update_group k (add_units s 1) ga)) =
           grant s K (update_group k (add_units s 1) ga)"
        using Cons.IH [OF d] by blast
      have "k \<notin> K" using K(1) nk by force
      then have "fst (walk s (a # fracs) d ga) = grant s (insert k K) ga"
        using K(2) dp True a by (simp add: grant_update)
      moreover have "insert k K \<subseteq> {k. \<exists>fr cap. (fr, k, cap) \<in> set (a # fracs) \<and> 0 < cap}"
      proof
        fix x assume "x \<in> insert k K"
        then consider "x = k" | "x \<in> K" by blast
        then show "x \<in> {k. \<exists>fr cap. (fr, k, cap) \<in> set (a # fracs) \<and> 0 < cap}"
        proof cases
          case 1
          have "(fr, k, cap) \<in> set (a # fracs)" using a by simp
          then show ?thesis using 1 True by blast
        next
          case 2
          then obtain fr' cap' where "(fr', x, cap') \<in> set fracs" "0 < cap'" using K(1) by blast
          then have "(fr', x, cap') \<in> set (a # fracs)" by simp
          then show ?thesis using \<open>0 < cap'\<close> by blast
        qed
      qed
      ultimately show ?thesis by blast
    next
      case False
      obtain K where K: "K \<subseteq> {k. \<exists>fr cap. (fr, k, cap) \<in> set fracs \<and> 0 < cap}"
        "fst (walk s fracs d ga) = grant s K ga"
        using Cons.IH [OF d] by blast
      have "fst (walk s (a # fracs) d ga) = grant s K ga" using K(2) dp False a by simp
      moreover have "K \<subseteq> {k. \<exists>fr cap. (fr, k, cap) \<in> set (a # fracs) \<and> 0 < cap}"
      proof
        fix x assume "x \<in> K"
        then obtain fr' cap' where "(fr', x, cap') \<in> set fracs" "0 < cap'" using K(1) by blast
        then have "(fr', x, cap') \<in> set (a # fracs)" by simp
        then show "x \<in> {k. \<exists>fr cap. (fr, k, cap) \<in> set (a # fracs) \<and> 0 < cap}"
          using \<open>0 < cap'\<close> by blast
      qed
      ultimately show ?thesis by blast
    qed
  qed
qed


lemma walk_ranked_grants:
  assumes "distinct (map fst ga)"
  shows "\<exists>K. K \<subseteq> with_capacity ga \<and> fst (walk s (ranked s ga) d ga) = grant s K ga"
proof -
  obtain K where K: "K \<subseteq> {k. \<exists>fr cap. (fr, k, cap) \<in> set (ranked s ga) \<and> 0 < cap}"
    "fst (walk s (ranked s ga) d ga) = grant s K ga"
    using walk_grants [OF ranked_distinct [OF assms]] by blast
  have "K \<subseteq> with_capacity ga"
  proof
    fix k assume "k \<in> K"
    then obtain fr cap where m: "(fr, k, cap) \<in> set (ranked s ga)" "0 < cap" using K(1) by blast
    then obtain kv where kv: "kv \<in> set ga"
      "(fr, k, cap) = (\<lambda>(k, v). (fsub (ideal s v) (cur s v), k, size_g v - train v - dev v)) kv"
      unfolding ranked_set by blast
    obtain k' v where e: "kv = (k', v)" by (cases kv)
    have "k' = k" "cap = size_g v - train v - dev v" using kv(2) e by simp_all
    then have "(k, v) \<in> set ga" "0 < size_g v - train v - dev v" using kv(1) e m(2) by simp_all
    then show "k \<in> with_capacity ga" unfolding with_capacity_def by blast
  qed
  then show ?thesis using K(2) by blast
qed

lemma grant_mem:
  assumes "(k, v') \<in> set (grant s K ga)"
  shows "\<exists>v. (k, v) \<in> set ga \<and> v' = (if k \<in> K then add_units s 1 v else v)"
proof -
  obtain kv where kv: "kv \<in> set ga"
    "(k, v') = (\<lambda>(k, v). if k \<in> K then (k, add_units s 1 v) else (k, v)) kv"
    using assms unfolding grant_def by (metis (no_types, lifting) imageE list.set_map)
  obtain k' v where e: "kv = (k', v)" by (cases kv)
  have "k' = k" using kv(2) e by (simp split: if_splits)
  then have "v' = (if k \<in> K then add_units s 1 v else v)" using kv(2) e by (simp split: if_splits)
  then show ?thesis using kv(1) e \<open>k' = k\<close> by blast
qed

lemma add_units_test: "test (add_units s c v) = size_g v - train v - dev v - c"
  by (cases s) (simp_all add: add_units_def Let_def)

lemma grant_tests_nonneg:
  assumes "distinct (map fst ga)" "K \<subseteq> with_capacity ga" "tests_nonneg ga"
  shows "tests_nonneg (grant s K ga)"
  unfolding tests_nonneg_def
proof (intro ballI, clarify)
  fix k v' assume "(k, v') \<in> set (grant s K ga)"
  then obtain v where v: "(k, v) \<in> set ga" "v' = (if k \<in> K then add_units s 1 v else v)"
    using grant_mem by blast
  show "0 \<le> test v'"
  proof (cases "k \<in> K")
    case False
    have "0 \<le> test v" using v(1) assms(3) unfolding tests_nonneg_def by blast
    then show ?thesis using v(2) False by simp
  next
    case True
    then obtain w where w: "(k, w) \<in> set ga" "0 < size_g w - train w - dev w"
      using assms(2) unfolding with_capacity_def by blast
    have "w = v" using assms(1) w(1) v(1) by (rule eq_key_imp_eq_value)
    then have "0 < size_g v - train v - dev v" using w(2) by simp
    then show ?thesis using v(2) True by (simp add: add_units_test)
  qed
qed

lemma walk_tests_nonneg:
  assumes "distinct (map fst ga)" "tests_nonneg ga"
  shows "tests_nonneg (fst (walk s (ranked s ga) d ga))"
proof -
  obtain K where "K \<subseteq> with_capacity ga" "fst (walk s (ranked s ga) d ga) = grant s K ga"
    using walk_ranked_grants [OF assms(1)] by blast
  then show ?thesis using grant_tests_nonneg [OF assms(1) _ assms(2)] by simp
qed










lemma floor_alloc_test_nonneg:
  assumes "valid_fracs cfg" "TRAIN_FRAC cfg + DEV_FRAC cfg \<le> 1 + 1 / 2 ^ 52"
    "0 \<le> g" "g \<le> 2 ^ 48"
  shows "0 \<le> test (floor_alloc cfg g)"
proof -
  let ?T = "TRAIN_FRAC cfg" and ?D = "DEV_FRAC cfg"
  let ?a = "\<lfloor>fmul g ?T\<rfloor>" and ?b = "\<lfloor>fmul g ?D\<rfloor>"
  have v: "0 \<le> ?T" "?T \<le> 1" "0 \<le> ?D" "?D \<le> 1" using assms(1) by (simp_all add: valid_fracs_def)
  have g53: "g < 2 ^ 53" using assms(4) by simp
  have g0: "(0::rat) \<le> of_int g" using assms(3) by simp
  have gr: "(of_int g :: rat) \<le> 2 ^ 48" using assms(4)
    by (metis of_int_le_iff of_int_numeral of_int_power)
  have a: "of_int ?a \<le> of_int g * ?T + of_int g / 2 ^ 52"
    using assms(3) g53 v(1,2) by (rule floor_fmul_lower)
  have b: "of_int ?b \<le> of_int g * ?D + of_int g / 2 ^ 52"
    using assms(3) g53 v(3,4) by (rule floor_fmul_lower)
  have s: "of_int g * (?T + ?D) \<le> of_int g * (1 + 1 / 2 ^ 52)"
    using assms(2) g0 by (rule mult_left_mono)
  have "(of_int (?a + ?b) :: rat) \<le> of_int g * (?T + ?D) + of_int g / 2 ^ 51"
    using a b by (simp add: algebra_simps)
  also have "\<dots> \<le> of_int g + of_int g / 2 ^ 52 + of_int g / 2 ^ 51"
    using s by (simp add: algebra_simps)
  also have "\<dots> < of_int g + 1"
  proof -
    have "(of_int g :: rat) / 2 ^ 52 \<le> 2 ^ 48 / 2 ^ 52" using gr by (simp add: divide_right_mono)
    moreover have "(of_int g :: rat) / 2 ^ 51 \<le> 2 ^ 48 / 2 ^ 51" using gr by (simp add: divide_right_mono)
    ultimately show ?thesis by simp
  qed
  finally have "(of_int (?a + ?b) :: rat) < of_int (g + 1)" by simp
  then have "?a + ?b < g + 1" by (simp only: of_int_less_iff)
  then show ?thesis by (simp add: floor_alloc_def Let_def)
qed

lemma initial_tests_nonneg:
  assumes "valid_fracs cfg" "TRAIN_FRAC cfg + DEV_FRAC cfg \<le> 1 + 1 / 2 ^ 52"
    "\<forall>(k, ids) \<in> set groups. int (length ids) \<le> 2 ^ 48"
  shows "tests_nonneg (initial_alloc cfg groups)"
  unfolding tests_nonneg_def initial_alloc_def
proof (intro ballI, clarify)
  fix k v assume "(k, v) \<in> set (map (\<lambda>(k, ids). (k, floor_alloc cfg (int (length ids)))) groups)"
  then obtain kv where kv: "kv \<in> set groups"
    "(k, v) = (\<lambda>(k, ids). (k, floor_alloc cfg (int (length ids)))) kv"
    by (metis (no_types, lifting) imageE list.set_map)
  obtain k' ids where e: "kv = (k', ids)" by (cases kv)
  have vv: "v = floor_alloc cfg (int (length ids))" using kv(2) e by simp
  have "int (length ids) \<le> 2 ^ 48" using assms(3) kv(1) e by blast
  then show "0 \<le> test v" unfolding vv
    using floor_alloc_test_nonneg [OF assms(1,2), of "int (length ids)"] by simp
qed

lemma sizes_initial_alloc:
  "sizes (initial_alloc cfg groups) = int (length (concat (map snd groups)))"
  by (simp add: sizes_def initial_alloc_shape group_sizes_def [symmetric] sum_group_sizes)

lemma group_size_le:
  assumes "(k, ids) \<in> set groups"
  shows "int (length ids) \<le> int (length (concat (map snd groups)))"
proof -
  have "ids \<in> set (map snd groups)" using assms by force
  then have "length ids \<le> length (concat (map snd groups))" by (rule length_le_concat)
  then show ?thesis by simp
qed

text \<open>The train pass is completed by the ranked walk: its round-robin loop is not
  entered.\<close>

lemma train_pass:
  assumes "distinct (map fst groups)" "valid_fracs cfg"
    "TRAIN_FRAC cfg + DEV_FRAC cfg \<le> 1 + 1 / 2 ^ 52"
    "n = int (length (concat (map snd groups)))" "n \<le> 2 ^ 48"
  shows "\<exists>K. K \<subseteq> with_capacity (initial_alloc cfg groups) \<and>
     adjust_for_target Train (target_of n (TRAIN_FRAC cfg)) (initial_alloc cfg groups) =
       Some (Inr (grant Train K (initial_alloc cfg groups)))"
proof -
  let ?ga = "initial_alloc cfg groups"
  let ?tt = "target_of n (TRAIN_FRAC cfg)"
  define d where "d = ?tt - total Train ?ga"
  define w where "w = walk Train (ranked Train ?ga) d ?ga"
  have n0: "0 \<le> n" using assms(4) by simp
  have b: "\<forall>(k, ids) \<in> set groups. int (length ids) < 2 ^ 53"
  proof (intro ballI, clarify)
    fix k ids assume "(k, ids) \<in> set groups"
    then have "int (length ids) \<le> n" unfolding assms(4) by (rule group_size_le)
    then show "int (length ids) < 2 ^ 53" using assms(5) by simp
  qed
  have k0: "distinct (map fst ?ga)" using assms(1) by (simp add: initial_alloc_def comp_def case_prod_unfold)
  have w0: "wf_galloc ?ga" using assms(2) b by (rule initial_alloc_wf)
  have sz: "n = sizes ?ga" using assms(4) by (simp add: sizes_initial_alloc)
  have db: "d \<le> int (length (filter (\<lambda>(fr, k, cap). 0 < cap) (ranked Train ?ga)))"
    unfolding d_def ranked_cap_count
    using assms(2,3) b sz n0 assms(5) by (rule train_deficit_bound)
  have "snd w = (if 0 \<le> d then max 0 (d - int (length (filter (\<lambda>(fr, k, cap). 0 < cap) (ranked Train ?ga)))) else d)"
    using walk_props [OF k0 ranked_distinct [OF k0] ranked_caps_ok [OF k0] w0, where s = Train and d = d]
    unfolding w_def by blast
  then have sw: "snd w \<le> 0" using db by (simp split: if_splits)
  obtain K where K: "K \<subseteq> with_capacity ?ga" "fst w = grant Train K ?ga"
    using walk_ranked_grants [OF k0, where s = Train and d = d] unfolding w_def by blast
  have adj: "adjust_for_target Train ?tt ?ga =
    (if d = 0 then Some (Inr ?ga)
     else if snd w > 0 then round_robin Train 0 (snd w) (fst w) else Some (Inr (fst w)))"
    by (simp add: adjust_for_target_def Let_def d_def w_def case_prod_unfold)
  show ?thesis
  proof (cases "d = 0")
    case True
    have "adjust_for_target Train ?tt ?ga = Some (Inr (grant Train {} ?ga))"
      using adj True by (simp add: grant_empty)
    then show ?thesis by blast
  next
    case False
    have "adjust_for_target Train ?tt ?ga = Some (Inr (grant Train K ?ga))"
      using adj False sw K(2) by simp
    then show ?thesis using K(1) by blast
  qed
qed



lemma adjust_for_target_unfold:
  "adjust_for_target s target ga =
    (if target - total s ga = 0 then Some (Inr ga)
     else if snd (walk s (ranked s ga) (target - total s ga) ga) > 0
          then round_robin s 0 (snd (walk s (ranked s ga) (target - total s ga) ga))
                 (fst (walk s (ranked s ga) (target - total s ga) ga))
          else Some (Inr (fst (walk s (ranked s ga) (target - total s ga) ga))))"
  by (simp add: adjust_for_target_def Let_def case_prod_unfold)

text \<open>The two passes on the floor allocation: the train pass grants one unit to some groups
  with capacity, the dev pass leaves the train counts alone.\<close>

lemma correction_path:
  assumes "distinct (map fst groups)" "valid_fracs cfg"
    "TRAIN_FRAC cfg + DEV_FRAC cfg \<le> 1 + 1 / 2 ^ 52"
    "n = int (length (concat (map snd groups)))" "n \<le> 2 ^ 48"
  shows "\<exists>K ga2. K \<subseteq> with_capacity (initial_alloc cfg groups) \<and>
     deficit_correction (target_of n (TRAIN_FRAC cfg)) (target_of n (DEV_FRAC cfg))
        (initial_alloc cfg groups) = Some (Inr ga2) \<and>
     frame Dev ga2 = frame Dev (grant Train K (initial_alloc cfg groups)) \<and>
     wf_galloc ga2 \<and>
     (dev_walk_suffices cfg n groups \<longrightarrow> tests_nonneg ga2)"
proof -
  let ?ga0 = "initial_alloc cfg groups"
  let ?tt = "target_of n (TRAIN_FRAC cfg)"
  let ?td = "target_of n (DEV_FRAC cfg)"
  have n0: "0 \<le> n" using assms(4) by simp
  have n53: "n < 2 ^ 53" using assms(5) by simp
  have le: "\<forall>(k, ids) \<in> set groups. int (length ids) \<le> 2 ^ 48"
  proof (intro ballI, clarify)
    fix k ids assume "(k, ids) \<in> set groups"
    then have "int (length ids) \<le> n" unfolding assms(4) by (rule group_size_le)
    then show "int (length ids) \<le> 2 ^ 48" using assms(5) by simp
  qed
  then have b: "\<forall>(k, ids) \<in> set groups. int (length ids) < 2 ^ 53" by force
  have k0: "distinct (map fst ?ga0)" using assms(1) by (simp add: initial_alloc_def comp_def case_prod_unfold)
  have w0: "wf_galloc ?ga0" using assms(2) b by (rule initial_alloc_wf)
  have t0: "tests_nonneg ?ga0" using assms(2,3) le by (rule initial_tests_nonneg)
  have sz: "sizes ?ga0 = n" using assms(4) by (simp add: sizes_initial_alloc)
  have tb: "0 \<le> ?tt" "?tt \<le> n" "0 \<le> ?td" "?td \<le> n"
    using target_of_bounds [OF n0 n53] assms(2) by (simp_all add: valid_fracs_def)
  obtain K where K: "K \<subseteq> with_capacity ?ga0"
    "adjust_for_target Train ?tt ?ga0 = Some (Inr (grant Train K ?ga0))"
    using train_pass [OF assms] by blast
  define ga1 where "ga1 = grant Train K ?ga0"
  have a1: "adjust_for_target Train ?tt ?ga0 = Some (Inr ga1)" using K(2) by (simp only: ga1_def)
  have "?tt \<le> sizes ?ga0" using tb(2) sz by simp
  then obtain ga1' where 1: "adjust_for_target Train ?tt ?ga0 = Some (Inr ga1')"
    "frame Train ga1' = frame Train ?ga0" "wf_galloc ga1'"
    using adjust_for_target_returns [OF k0 w0, where s = Train and target = ?tt] by blast
  have e: "ga1' = ga1" using 1(1) a1 by simp
  have f1: "frame Train ga1 = frame Train ?ga0" and w1: "wf_galloc ga1" using 1(2,3) e by simp_all
  have s1: "shape ga1 = shape ?ga0" using f1 by (rule frame_shape)
  have k1: "distinct (map fst ga1)" using shape_keys [OF s1] k0 by simp
  have t1: "tests_nonneg ga1" unfolding ga1_def using k0 K(1) t0 by (rule grant_tests_nonneg)
  have "?td \<le> sizes ga1" using tb(4) sz s1 by (simp add: sizes_def)
  then obtain ga2 where 2: "adjust_for_target Dev ?td ga1 = Some (Inr ga2)"
    "frame Dev ga2 = frame Dev ga1" "wf_galloc ga2"
    using adjust_for_target_returns [OF k1 w1, where s = Dev and target = ?td] by blast
  have dc: "deficit_correction ?tt ?td ?ga0 = Some (Inr ga2)"
    using a1 2(1) by (simp add: deficit_correction_def)
  have tn: "dev_walk_suffices cfg n groups \<longrightarrow> tests_nonneg ga2"
  proof
    assume "dev_walk_suffices cfg n groups"
    then have sw: "snd (walk Dev (ranked Dev ga1) (?td - total Dev ga1) ga1) \<le> 0"
      using a1 by (simp add: dev_walk_suffices_def)
    then have nsw: "\<not> 0 < snd (walk Dev (ranked Dev ga1) (?td - total Dev ga1) ga1)" by simp
    have "adjust_for_target Dev ?td ga1 =
      (if ?td - total Dev ga1 = 0 then Some (Inr ga1)
       else Some (Inr (fst (walk Dev (ranked Dev ga1) (?td - total Dev ga1) ga1))))"
      by (subst adjust_for_target_unfold) (simp only: nsw if_False)
    then have "ga2 = ga1 \<or> ga2 = fst (walk Dev (ranked Dev ga1) (?td - total Dev ga1) ga1)"
      using 2(1) by (simp split: if_splits)
    then show "tests_nonneg ga2" using t1 walk_tests_nonneg [OF k1 t1] by auto
  qed
  show ?thesis using K(1) dc 2(2,3) tn unfolding ga1_def by blast
qed

text \<open>Just before the final reconciliation every train count is the floor of the group's
  ideal count or one more.\<close>

lemma train_counts_before_reconciliation:
  assumes "distinct (map fst groups)" "valid_fracs cfg"
    "TRAIN_FRAC cfg + DEV_FRAC cfg \<le> 1 + 1 / 2 ^ 52"
    "n = int (length (concat (map snd groups)))" "n \<le> 2 ^ 48"
  shows "\<exists>ga. deficit_correction (target_of n (TRAIN_FRAC cfg)) (target_of n (DEV_FRAC cfg))
        (initial_alloc cfg groups) = Some (Inr ga) \<and>
     shape ga = group_sizes groups \<and>
     (\<forall>(k, v) \<in> set ga. train v = \<lfloor>fmul (size_g v) (TRAIN_FRAC cfg)\<rfloor> \<or>
                          train v = \<lfloor>fmul (size_g v) (TRAIN_FRAC cfg)\<rfloor> + 1)"
proof -
  let ?ga0 = "initial_alloc cfg groups"
  let ?T = "TRAIN_FRAC cfg"
  let ?R = "\<lambda>x :: key \<times> int \<times> rat \<times> rat \<times> int.
     snd (snd (snd (snd x))) = \<lfloor>fmul (fst (snd x)) ?T\<rfloor> \<or>
     snd (snd (snd (snd x))) = \<lfloor>fmul (fst (snd x)) ?T\<rfloor> + 1"
  obtain K ga2 where p:
    "deficit_correction (target_of n ?T) (target_of n (DEV_FRAC cfg)) ?ga0 = Some (Inr ga2)"
    "frame Dev ga2 = frame Dev (grant Train K ?ga0)"
    using correction_path [OF assms] by blast
  have r1: "\<forall>x \<in> set (frame Dev (grant Train K ?ga0)). ?R x"
    by (auto simp: frame_def grant_def initial_alloc_def floor_alloc_def Let_def add_units_def)
  have r2: "\<forall>x \<in> set (frame Dev ga2). ?R x" using r1 by (simp only: p(2))
  have q: "\<forall>(k, v) \<in> set ga2. train v = \<lfloor>fmul (size_g v) ?T\<rfloor> \<or> train v = \<lfloor>fmul (size_g v) ?T\<rfloor> + 1"
  proof (intro ballI, clarify)
    fix k v assume m: "(k, v) \<in> set ga2" and "train v \<noteq> \<lfloor>fmul (size_g v) ?T\<rfloor> + 1"
    have "(k, size_g v, ideal_train v, ideal_dev v, train v) \<in> set (frame Dev ga2)"
      using m by (force simp: frame_def)
    then have "?R (k, size_g v, ideal_train v, ideal_dev v, train v)" using r2 by blast
    then show "train v = \<lfloor>fmul (size_g v) ?T\<rfloor>"
      using \<open>train v \<noteq> \<lfloor>fmul (size_g v) ?T\<rfloor> + 1\<close> by simp
  qed
  have "shape ga2 = shape (grant Train K ?ga0)" using p(2) by (rule frame_shape)
  also have "\<dots> = shape ?ga0" by (simp add: shape_def grant_def comp_def case_prod_unfold)
  also have "\<dots> = group_sizes groups" by (simp add: initial_alloc_shape group_sizes_def)
  finally show ?thesis using p(1) q by blast
qed



lemma default_config_sum: "TRAIN_FRAC default_config + DEV_FRAC default_config \<le> 1 + 1 / 2 ^ 52"
  by (simp add: default_config_def)

lemma scenario_pool_size: "int (length scenario_pool) \<le> 2 ^ 48"
  by (simp add: scenario_pool_def)




section \<open>Runs with a relational generator\<close>

lemma assign_loop_Nil_iff: "assign_loop shuffled ga [] rnd acc r \<longleftrightarrow> r = Inr acc"
  by (subst assign_loop.simps) auto

lemma assign_loop_Cons_iff:
  "assign_loop shuffled ga ((k, ids) # groups) rnd (train_ids, dev_ids, test_ids) r \<longleftrightarrow>
   (\<exists>ids_sorted rnd'. shuffled rnd ids (ids_sorted, rnd') \<and>
      (case map_of ga k of
         None \<Rightarrow> r = Inl KeyError
       | Some alloc \<Rightarrow>
           assign_loop shuffled ga groups rnd'
             (train_ids @ py_slice ids_sorted None (Some (train alloc)),
              dev_ids @ py_slice ids_sorted (Some (train alloc)) (Some (train alloc + dev alloc)),
              test_ids @ py_slice ids_sorted (Some (train alloc + dev alloc)) None) r))"
  by (subst assign_loop.simps) (auto split: option.splits; blast)

text \<open>With a shuffle that has one outcome, the loop has one outcome.\<close>

lemma assign_loop_functional:
  assumes "\<forall>g xs r r'. shuffled g xs r \<longrightarrow> shuffled g xs r' \<longrightarrow> r = r'"
  shows "assign_loop shuffled ga gs rnd acc r \<Longrightarrow>
         assign_loop shuffled ga gs rnd acc r' \<Longrightarrow> r = r'"
proof (induction gs arbitrary: rnd acc)
  case Nil
  then show ?case by (simp add: assign_loop_Nil_iff)
next
  case (Cons x gs)
  obtain k ids where x: "x = (k, ids)" by (cases x)
  obtain tr dv te where acc: "acc = (tr, dv, te)" by (cases acc)
  obtain is1 g1 where 1: "shuffled rnd ids (is1, g1)"
    "case map_of ga k of
       None \<Rightarrow> r = Inl KeyError
     | Some alloc \<Rightarrow>
         assign_loop shuffled ga gs g1
           (tr @ py_slice is1 None (Some (train alloc)),
            dv @ py_slice is1 (Some (train alloc)) (Some (train alloc + dev alloc)),
            te @ py_slice is1 (Some (train alloc + dev alloc)) None) r"
    using Cons.prems(1) unfolding x acc assign_loop_Cons_iff by blast
  obtain is2 g2 where 2: "shuffled rnd ids (is2, g2)"
    "case map_of ga k of
       None \<Rightarrow> r' = Inl KeyError
     | Some alloc \<Rightarrow>
         assign_loop shuffled ga gs g2
           (tr @ py_slice is2 None (Some (train alloc)),
            dv @ py_slice is2 (Some (train alloc)) (Some (train alloc + dev alloc)),
            te @ py_slice is2 (Some (train alloc + dev alloc)) None) r'"
    using Cons.prems(2) unfolding x acc assign_loop_Cons_iff by blast
  have "(is1, g1) = (is2, g2)" using assms 1(1) 2(1) by blast
  then have e: "is2 = is1" "g2 = g1" by simp_all
  show ?case
  proof (cases "map_of ga k")
    case None
    then show ?thesis using 1(2) 2(2) by simp
  next
    case (Some alloc)
    then show ?thesis using 1(2) 2(2) e Cons.IH by simp
  qed
qed

lemma assign_loop_of_fun:
  "assign_loop (shuffled_by shuffle) ga gs rnd acc (assign_ids shuffle ga gs rnd acc)"
proof (induction shuffle ga gs rnd acc rule: assign_ids.induct)
  case (1 shuffle ga rnd acc)
  show ?case by (simp add: assign_loop.loop_done)
next
  case (2 shuffle ga k ids groups rnd train_ids dev_ids test_ids)
  obtain ids_sorted rnd' where s: "shuffle rnd ids = (ids_sorted, rnd')"
    by (cases "shuffle rnd ids")
  have sh: "shuffled_by shuffle rnd ids (ids_sorted, rnd')" by (simp add: shuffled_by_def s)
  show ?case
  proof (cases "map_of ga k")
    case None
    then show ?thesis using assign_loop.loop_missing [where shuffled = "shuffled_by shuffle", OF sh None] by (simp add: s)
  next
    case (Some alloc)
    have "assign_loop (shuffled_by shuffle) ga groups rnd'
       (train_ids @ py_slice ids_sorted None (Some (train alloc)),
        dev_ids @ py_slice ids_sorted (Some (train alloc)) (Some (train alloc + dev alloc)),
        test_ids @ py_slice ids_sorted (Some (train alloc + dev alloc)) None)
       (assign_ids shuffle ga groups rnd'
         (train_ids @ py_slice ids_sorted None (Some (train alloc)),
          dev_ids @ py_slice ids_sorted (Some (train alloc)) (Some (train alloc + dev alloc)),
          test_ids @ py_slice ids_sorted (Some (train alloc + dev alloc)) None))"
      using "2.IH" [OF s [symmetric] Some] by (simp add: Let_def)
    then show ?thesis
      using assign_loop.loop_step [where shuffled = "shuffled_by shuffle", OF sh Some] by (simp add: s Some Let_def)
  qed
qed

text \<open>Every result of the functional model is a result of a run with the library given by
  the same functions.\<close>

lemma run_of_split_pool:
  assumes "split_pool cfg Random shuffle items = Some r"
  shows "run (seeded_by Random) (shuffled_by shuffle) cfg items r"
proof (cases "group_items items []")
  case (Inl e)
  then have "r = Inl e" using assms by (simp add: split_pool_def assignment_def Let_def)
  then show ?thesis using run.run_grouping_error [where seeded = "seeded_by Random" and shuffled = "shuffled_by shuffle", OF Inl] by simp
next
  case (Inr groups)
  show ?thesis
  proof (cases "group_allocation cfg (int (length items)) groups")
    case None
    then show ?thesis using assms Inr by (simp add: split_pool_def assignment_def Let_def)
  next
    case (Some a)
    show ?thesis
    proof (cases a)
      case (Inl e)
      then have "r = Inl e" using assms Inr Some by (simp add: split_pool_def assignment_def Let_def)
      then show ?thesis using run.run_allocation_error [where seeded = "seeded_by Random" and shuffled = "shuffled_by shuffle", OF Inr] Some Inl by simp
    next
      case ga: (Inr ga)
      have sd: "seeded_by Random (SEED cfg) (Random (SEED cfg))" by (simp add: seeded_by_def)
      have al: "group_allocation cfg (int (length items)) groups = Some (Inr ga)"
        using Some ga by simp
      let ?res = "assign_ids shuffle ga (sort_key fst groups) (Random (SEED cfg)) ([], [], [])"
      have rel: "assign_loop (shuffled_by shuffle) ga (sort_key fst groups) (Random (SEED cfg))
                   ([], [], []) ?res"
        by (rule assign_loop_of_fun)
      show ?thesis
      proof (cases ?res)
        case (Inl e)
        then have "r = Inl e" using assms Inr al by (simp add: split_pool_def assignment_def Let_def)
        then show ?thesis using run.run_loop_error [where seeded = "seeded_by Random" and shuffled = "shuffled_by shuffle", OF Inr al sd] rel Inl by simp
      next
        case p: (Inr parts)
        obtain tr dv te where parts: "parts = (tr, dv, te)" by (cases parts)
        have "r = write_out items parts"
          using assms Inr al p parts
          by (simp add: split_pool_def assignment_def Let_def write_out_def
              split: sum.splits if_splits)
        then show ?thesis using run.run_assigned [where seeded = "seeded_by Random" and shuffled = "shuffled_by shuffle", OF Inr al sd] rel p by simp
      qed
    qed
  qed
qed

section \<open>The claims of the specification\<close>

text \<open>
  \<^bold>\<open>C1\<close> (completeness). For every pool whose items carry both label fields and pairwise
  different identifiers, and for every configuration whose train and dev fractions lie
  between 0 and 1 (in particular every triple of non-negative fractions that sums to 1), the
  run returns three lists whose identifier sets are pairwise disjoint, which together hold
  every item of the pool exactly once, and whose lengths add up to the size of the pool.
  The pool has fewer than \<open>2 ^ 53\<close> items, the range in which a list length is a float.
\<close>

theorem C1_partition_complete:
  assumes "perm_shuffle shuffle" "valid_fracs cfg" "fields_present items"
    "distinct (map item_id items)" "int (length items) < 2 ^ 53"
  shows "\<exists>out. split_pool cfg Random shuffle items = Some (Inr out) \<and>
     set (map item_id (train_list out)) \<inter> set (map item_id (dev_list out)) = {} \<and>
     set (map item_id (train_list out)) \<inter> set (map item_id (test_list out)) = {} \<and>
     set (map item_id (dev_list out)) \<inter> set (map item_id (test_list out)) = {} \<and>
     mset (train_list out) + mset (dev_list out) + mset (test_list out) = mset items \<and>
     length (train_list out) + length (dev_list out) + length (test_list out) = length items"
proof -
  obtain groups ga tr dv te where f:
    "group_items items [] = Inr groups"
    "group_allocation cfg (int (length items)) groups = Some (Inr ga)"
    "assign_ids shuffle ga (sort_key fst groups) (Random (SEED cfg)) ([], [], []) = Inr (tr, dv, te)"
    "mset tr + mset dv + mset te = mset (map item_id items)"
    using run_facts [OF assms(1,2,3,5), of Random] by blast
  have "int (card (set tr \<union> set dv \<union> set te)) = int (length (map item_id items))"
    using assert_iff_distinct [OF f(4)] assms(4) by simp
  then have a: "assignment cfg Random shuffle items = Some (Inr (tr, dv, te))"
    using assignment_unfold [where Random = Random, OF f(1,2,3)] by simp
  let ?P = "\<lambda>it. item_id it \<in> set tr" and ?Q = "\<lambda>it. item_id it \<in> set dv"
    and ?R = "\<lambda>it. item_id it \<in> set te"
  let ?out = "\<lparr>train_list = filter ?P items, dev_list = filter ?Q items, test_list = filter ?R items\<rparr>"
  have s: "split_pool cfg Random shuffle items = Some (Inr ?out)"
    using a assms(4) by (rule split_pool_unfold)
  note d = three_disjoint [OF f(4) assms(4)]
  have cover: "\<forall>x \<in> set items. (?P x \<or> ?Q x \<or> ?R x) \<and> \<not> (?P x \<and> ?Q x) \<and> \<not> (?P x \<and> ?R x) \<and> \<not> (?Q x \<and> ?R x)"
    using d(1,2,3,7) by auto
  have m: "mset (filter ?P items) + mset (filter ?Q items) + mset (filter ?R items) = mset items"
    using cover by (rule filter3_mset)
  have l: "length (filter ?P items) + length (filter ?Q items) + length (filter ?R items) = length items"
    using cover by (rule filter3_length)
  have "set (map item_id (filter ?P items)) \<subseteq> set tr" "set (map item_id (filter ?Q items)) \<subseteq> set dv"
    "set (map item_id (filter ?R items)) \<subseteq> set te" by auto
  then have dj: "set (map item_id (filter ?P items)) \<inter> set (map item_id (filter ?Q items)) = {}"
    "set (map item_id (filter ?P items)) \<inter> set (map item_id (filter ?R items)) = {}"
    "set (map item_id (filter ?Q items)) \<inter> set (map item_id (filter ?R items)) = {}"
    using d(1,2,3) by blast+
  show ?thesis
    by (rule exI [of _ ?out]) (simp only: s dj m l outputs.simps simp_thms)
qed

theorem C1_partition_complete_witness:
  "perm_shuffle rev_shuffle \<and> valid_fracs default_config \<and> fields_present scenario_pool \<and>
   distinct (map item_id scenario_pool) \<and> int (length scenario_pool) < 2 ^ 53 \<and>
   (\<exists>out. split_pool default_config nat rev_shuffle scenario_pool = Some (Inr out) \<and>
     set (map item_id (train_list out)) \<inter> set (map item_id (dev_list out)) = {} \<and>
     set (map item_id (train_list out)) \<inter> set (map item_id (test_list out)) = {} \<and>
     set (map item_id (dev_list out)) \<inter> set (map item_id (test_list out)) = {} \<and>
     mset (train_list out) + mset (dev_list out) + mset (test_list out) = mset scenario_pool \<and>
     length (train_list out) + length (dev_list out) + length (test_list out) = length scenario_pool)"
  using C1_partition_complete [OF rev_shuffle_perm default_config_valid scenario_pool_fields
      scenario_pool_distinct scenario_pool_small, of nat]
    rev_shuffle_perm default_config_valid scenario_pool_fields scenario_pool_distinct
    scenario_pool_small
  by simp

text \<open>
  \<^bold>\<open>C2\<close> (determinism). The generator of the library is taken as a relation: what
  \<open>random.Random(SEED)\<close> returns and what \<open>shuffle\<close> does to a list are whatever the
  library allows. If the library is deterministic in the sense of its documentation (a
  generator created from a given seed is in one state, and shuffling a given list with a
  generator in a given state has one outcome), then two runs of the script on the same pool
  with the same configuration end with the same result: the same error, or the same three
  written lists, item for item and in the same order. The script creates its own generator
  from \<open>SEED\<close>, visits the groups in sorted key order and threads the generator through
  the shuffles in that order; nothing else in a run depends on the generator.
\<close>

theorem C2_two_runs_agree:
  assumes "deterministic_library seeded shuffled"
    "run seeded shuffled cfg items r1" "run seeded shuffled cfg items r2"
  shows "r1 = r2"
proof -
  have ds: "\<And>s g g'. seeded s g \<Longrightarrow> seeded s g' \<Longrightarrow> g = g'"
    and dsh: "\<forall>g xs r r'. shuffled g xs r \<longrightarrow> shuffled g xs r' \<longrightarrow> r = r'"
    using assms(1) unfolding deterministic_library_def by blast+
  note fn = assign_loop_functional [OF dsh]
  from assms(2) show ?thesis
  proof (cases rule: run.cases)
    case (run_grouping_error e)
    from assms(3) show ?thesis by (cases rule: run.cases) (use run_grouping_error in simp_all)
  next
    case (run_allocation_error groups e)
    from assms(3) show ?thesis by (cases rule: run.cases) (use run_allocation_error in simp_all)
  next
    case a: (run_loop_error groups ga rnd e)
    from assms(3) show ?thesis
    proof (cases rule: run.cases)
      case (run_grouping_error e)
      then show ?thesis using a by simp
    next
      case (run_allocation_error groups e)
      then show ?thesis using a by simp
    next
      case b: (run_loop_error groups2 ga2 rnd2 e2)
      have g: "groups2 = groups" "ga2 = ga" using a b by simp_all
      have "rnd2 = rnd" using ds a(4) b(4) by blast
      then have "assign_loop shuffled ga (sort_key fst groups) rnd ([], [], []) (Inl e2)"
        using b(5) g by simp
      from fn [OF a(5) this] show ?thesis using a(1) b(1) by simp
    next
      case b: (run_assigned groups2 ga2 rnd2 parts2)
      have g: "groups2 = groups" "ga2 = ga" using a b by simp_all
      have "rnd2 = rnd" using ds a(4) b(4) by blast
      then have "assign_loop shuffled ga (sort_key fst groups) rnd ([], [], []) (Inr parts2)"
        using b(5) g by simp
      from fn [OF a(5) this] show ?thesis by simp
    qed
  next
    case a: (run_assigned groups ga rnd parts)
    from assms(3) show ?thesis
    proof (cases rule: run.cases)
      case (run_grouping_error e)
      then show ?thesis using a by simp
    next
      case (run_allocation_error groups e)
      then show ?thesis using a by simp
    next
      case b: (run_loop_error groups2 ga2 rnd2 e2)
      have g: "groups2 = groups" "ga2 = ga" using a b by simp_all
      have "rnd2 = rnd" using ds a(4) b(4) by blast
      then have "assign_loop shuffled ga (sort_key fst groups) rnd ([], [], []) (Inl e2)"
        using b(5) g by simp
      from fn [OF a(5) this] show ?thesis by simp
    next
      case b: (run_assigned groups2 ga2 rnd2 parts2)
      have g: "groups2 = groups" "ga2 = ga" using a b by simp_all
      have "rnd2 = rnd" using ds a(4) b(4) by blast
      then have "assign_loop shuffled ga (sort_key fst groups) rnd ([], [], []) (Inr parts2)"
        using b(5) g by simp
      from fn [OF a(5) this] show ?thesis using a(1) b(1) by simp
    qed
  qed
qed

theorem C2_two_runs_agree_witness:
  "deterministic_library (seeded_by nat) (shuffled_by rev_shuffle) \<and>
   run (seeded_by nat) (shuffled_by rev_shuffle) default_config scenario_pool
     (Inr scenario_result) \<and>
   run (seeded_by nat) (shuffled_by rev_shuffle) default_config scenario_pool
     (write_out scenario_pool ([7, 6, 5, 4, 3, 10, 9], [2, 8], [1])) \<and>
   Inr scenario_result = write_out scenario_pool ([7, 6, 5, 4, 3, 10, 9], [2, 8], [1])"
proof -
  have d: "deterministic_library (seeded_by nat) (shuffled_by rev_shuffle)"
    by (simp add: deterministic_library_def seeded_by_def shuffled_by_def)
  have r1: "run (seeded_by nat) (shuffled_by rev_shuffle) default_config scenario_pool
     (Inr scenario_result)"
    using scenario_run by (rule run_of_split_pool)
  have r2: "run (seeded_by nat) (shuffled_by rev_shuffle) default_config scenario_pool
     (write_out scenario_pool ([7, 6, 5, 4, 3, 10, 9], [2, 8], [1]))"
    using scenario_run_written by (rule run_of_split_pool)
  show ?thesis using d r1 r2 C2_two_runs_agree [OF d r1 r2] by (intro conjI)
qed




text \<open>
  \<^bold>\<open>C4\<close> (stratum proportionality bound). For fractions between 0 and 1 whose train and dev
  parts sum to at most 1 (up to one unit in the last place) and a pool of at most
  \<open>2 ^ 48\<close> items, the deficit correction returns, and in the allocation it leaves, just
  before the final reconciliation, the train count of every group of size \<open>g\<close> is
  \<open>floor(g * f_train)\<close> or one more: the train pass is completed by the ranked walk,
  which grants a group at most once, and the dev pass does not touch train counts.
\<close>

theorem C4_train_within_one_of_floor:
  assumes "valid_fracs cfg" "TRAIN_FRAC cfg + DEV_FRAC cfg \<le> 1 + 1 / 2 ^ 52"
    "fields_present items" "int (length items) \<le> 2 ^ 48"
  shows "\<exists>groups ga.
     group_items items [] = Inr groups \<and>
     deficit_correction (target_of (int (length items)) (TRAIN_FRAC cfg))
        (target_of (int (length items)) (DEV_FRAC cfg)) (initial_alloc cfg groups) =
       Some (Inr ga) \<and>
     shape ga = group_sizes groups \<and>
     (\<forall>(k, v) \<in> set ga. train v = \<lfloor>fmul (size_g v) (TRAIN_FRAC cfg)\<rfloor> \<or>
                          train v = \<lfloor>fmul (size_g v) (TRAIN_FRAC cfg)\<rfloor> + 1)"
proof -
  obtain groups where g: "group_items items [] = Inr groups" "distinct (map fst groups)"
    "mset (concat (map snd groups)) = mset (map item_id items)"
    using group_items_Inr [OF assms(3), of "[]"] by auto
  have "length (concat (map snd groups)) = length (map item_id items)"
    using g(3) by (rule mset_eq_length)
  then have n: "int (length items) = int (length (concat (map snd groups)))" by simp
  show ?thesis
    using train_counts_before_reconciliation [OF g(2) assms(1,2) n assms(4)] g(1) by blast
qed

theorem C4_train_within_one_of_floor_witness:
  "valid_fracs default_config \<and>
   TRAIN_FRAC default_config + DEV_FRAC default_config \<le> 1 + 1 / 2 ^ 52 \<and>
   fields_present scenario_pool \<and> int (length scenario_pool) \<le> 2 ^ 48 \<and>
   (\<exists>groups ga.
     group_items scenario_pool [] = Inr groups \<and>
     deficit_correction (target_of (int (length scenario_pool)) (TRAIN_FRAC default_config))
        (target_of (int (length scenario_pool)) (DEV_FRAC default_config))
        (initial_alloc default_config groups) = Some (Inr ga) \<and>
     shape ga = group_sizes groups \<and>
     (\<forall>(k, v) \<in> set ga. train v = \<lfloor>fmul (size_g v) (TRAIN_FRAC default_config)\<rfloor> \<or>
                          train v = \<lfloor>fmul (size_g v) (TRAIN_FRAC default_config)\<rfloor> + 1))"
  using C4_train_within_one_of_floor [OF default_config_valid default_config_sum
      scenario_pool_fields scenario_pool_size]
    default_config_valid default_config_sum scenario_pool_fields scenario_pool_size
  by (intro conjI)

text \<open>
  \<^bold>\<open>C5\<close> (the concrete scenario). Ten items, seven in (easy, production) and three in
  (hard, production), fractions 0.70/0.15/0.15: the targets are train 7, dev 2, test 1; the
  floor allocation is 4/1/2 for (easy, production) and 2/0/1 for (hard, production); the
  train pass ranks (easy, production) first, its remainder being the largest, both groups
  having capacity, and raises its train count to 5; the dev pass ranks (hard, production)
  first and raises its dev count to 1.
\<close>

theorem C5_scenario:
  "group_items scenario_pool [] = Inr scenario_groups \<and>
   target_of (int (length scenario_pool)) (TRAIN_FRAC default_config) = 7 \<and>
   target_of (int (length scenario_pool)) (DEV_FRAC default_config) = 2 \<and>
   int (length scenario_pool) - 7 - 2 = 1 \<and>
   view (initial_alloc default_config scenario_groups) =
     [(easy_production, 4, 1, 2), (hard_production, 2, 0, 1)] \<and>
   ranked Train (initial_alloc default_config scenario_groups) =
     [(1013309916158361 / 1125899906842624, easy_production, 2),
      (56294995342131 / 562949953421312, hard_production, 1)] \<and>
   map_option (map_sum id view)
     (adjust_for_target Train 7 (initial_alloc default_config scenario_groups)) =
     Some (Inr [(easy_production, 5, 1, 1), (hard_production, 2, 0, 1)]) \<and>
   map_option (map_sum id (ranked Dev))
     (adjust_for_target Train 7 (initial_alloc default_config scenario_groups)) =
     Some (Inr [(2026619832316723 / 4503599627370496, hard_production, 1),
                (225179981368525 / 4503599627370496, easy_production, 1)]) \<and>
   map_option (map_sum id view)
     (deficit_correction 7 2 (initial_alloc default_config scenario_groups)) =
     Some (Inr [(easy_production, 5, 1, 1), (hard_production, 2, 1, 0)])"
  by code_simp

text \<open>
  \<^bold>\<open>C6\<close> (capacity in the round-robin fallback) does not hold of the code. With the
  fractions 0.25, 0.6875, 0.0625 and fourteen items, one in (easy, production) and thirteen
  in (hard, production), the dev pass needs two more units; the walk gives one to
  (hard, production), the only group with capacity, and the fallback gives the other to
  (easy, production), whose capacity is 0 (its dev count 0 is below its size 1): its test
  count becomes -1, while (hard, production) still has a free item. The written dev list
  has 9 items for a target of 10.
\<close>

theorem C6_fallback_ignores_capacity:
  "group_items pool14 [] = Inr groups14 \<and>
   target_of (int (length pool14)) (TRAIN_FRAC skew_config) = 4 \<and>
   target_of (int (length pool14)) (DEV_FRAC skew_config) = 10 \<and>
   adjust_for_target Train 4 (initial_alloc skew_config groups14) = Some (Inr skew_after_train) \<and>
   walk Dev (ranked Dev skew_after_train) (10 - total Dev skew_after_train) skew_after_train =
     (skew_after_walk, 1) \<and>
   view skew_after_walk = [(easy_production, 1, 0, 0), (hard_production, 3, 9, 1)] \<and>
   round_robin Dev 0 1 skew_after_walk = Some (Inr skew_final) \<and>
   view skew_final = [(easy_production, 1, 1, - 1), (hard_production, 3, 9, 1)] \<and>
   deficit_correction 4 10 (initial_alloc skew_config groups14) = Some (Inr skew_final) \<and>
   part_sizes (split_pool skew_config nat rev_shuffle pool14) = Some (4, 9, 1)"
  by code_simp

text \<open>
  \<^bold>\<open>C7\<close> (invalid fractions), as stated, fails: with the fractions 0.5, 0.25 and 0.5, which
  sum to 1.25, the run on the scenario pool returns a split.
\<close>

theorem C7_counterexample:
  "TRAIN_FRAC excess_config + DEV_FRAC excess_config + TEST_FRAC excess_config = 5 / 4 \<and>
   part_ids (split_pool excess_config nat rev_shuffle scenario_pool) =
     Some (Inr ([4, 5, 6, 7, 10], [2, 3], [1, 8, 9]))"
  by code_simp

text \<open>
  \<^bold>\<open>C7\<close>, amended. The run performs no check on the fractions: \<open>TEST_FRAC\<close> is never
  read, so the result is the same whatever its value, hence whatever the three fractions
  sum to.
\<close>

theorem C7_test_frac_unused:
  "split_pool (cfg\<lparr>TEST_FRAC := t\<rparr>) Random shuffle items = split_pool cfg Random shuffle items"
  by (simp add: split_pool_def assignment_test_frac)

text \<open>
  \<^bold>\<open>C8\<close> (unassignable item), as stated, fails: an item whose difficulty label is the
  empty string is grouped under that label and written to a partition.
\<close>

theorem C8_counterexample:
  "map difficulty_level empty_label_pool = [Some [], Some ''easy''] \<and>
   part_ids (split_pool default_config nat rev_shuffle empty_label_pool) =
     Some (Inr ([1], [], [2]))"
  by code_simp

text \<open>
  \<^bold>\<open>C8\<close>, amended. If some item lacks the difficulty or the table field, the run stops
  with a \<open>KeyError\<close> while grouping, before any allocation; no check is made on the value
  of a field that is present.
\<close>

theorem C8_missing_field_fails:
  assumes "\<not> fields_present items"
  shows "split_pool cfg Random shuffle items = Some (Inl KeyError)"
  using group_items_KeyError [OF assms, of "[]"]
  by (simp add: split_pool_def assignment_def)

theorem C8_missing_field_fails_witness:
  "\<not> fields_present missing_field_pool \<and>
   split_pool default_config nat rev_shuffle missing_field_pool = Some (Inl KeyError)"
proof -
  have h: "\<not> fields_present missing_field_pool"
    by (simp add: fields_present_def missing_field_pool_def)
  show ?thesis using h C8_missing_field_fails [OF h] by (rule conjI)
qed

text \<open>
  \<^bold>\<open>C9\<close> (order preservation and pass-through). Whenever the run returns, each written
  list is the pool filtered by membership of the identifier in the corresponding partition:
  a subsequence of the pool, in the pool's order, of the pool's own records.
\<close>

theorem C9_outputs_are_filtered_pool:
  assumes "perm_shuffle shuffle" "split_pool cfg Random shuffle items = Some (Inr out)"
  shows "\<exists>tr dv te. assignment cfg Random shuffle items = Some (Inr (tr, dv, te)) \<and>
     train_list out = filter (\<lambda>it. item_id it \<in> set tr) items \<and>
     dev_list out = filter (\<lambda>it. item_id it \<in> set dv) items \<and>
     test_list out = filter (\<lambda>it. item_id it \<in> set te) items \<and>
     subseq (train_list out) items \<and> subseq (dev_list out) items \<and> subseq (test_list out) items"
proof -
  obtain tr dv te where a: "assignment cfg Random shuffle items = Some (Inr (tr, dv, te))"
    using split_pool_Inr [OF assms(2)] by blast
  have d: "distinct (map item_id items)" using assms(1) a by (rule assignment_Inr_distinct)
  have "out = \<lparr>train_list = filter (\<lambda>it. item_id it \<in> set tr) items,
                dev_list = filter (\<lambda>it. item_id it \<in> set dv) items,
                test_list = filter (\<lambda>it. item_id it \<in> set te) items\<rparr>"
    using split_pool_unfold [OF a d] assms(2) by simp
  then have o: "train_list out = filter (\<lambda>it. item_id it \<in> set tr) items"
    "dev_list out = filter (\<lambda>it. item_id it \<in> set dv) items"
    "test_list out = filter (\<lambda>it. item_id it \<in> set te) items" by simp_all
  show ?thesis
    by (rule exI [of _ tr], rule exI [of _ dv], rule exI [of _ te])
       (simp add: a o)
qed

theorem C9_outputs_are_filtered_pool_witness:
  "perm_shuffle rev_shuffle \<and>
   split_pool default_config nat rev_shuffle scenario_pool = Some (Inr scenario_result) \<and>
   (\<exists>tr dv te. assignment default_config nat rev_shuffle scenario_pool = Some (Inr (tr, dv, te)) \<and>
     train_list scenario_result = filter (\<lambda>it. item_id it \<in> set tr) scenario_pool \<and>
     dev_list scenario_result = filter (\<lambda>it. item_id it \<in> set dv) scenario_pool \<and>
     test_list scenario_result = filter (\<lambda>it. item_id it \<in> set te) scenario_pool \<and>
     subseq (train_list scenario_result) scenario_pool \<and>
     subseq (dev_list scenario_result) scenario_pool \<and>
     subseq (test_list scenario_result) scenario_pool)"
  using rev_shuffle_perm scenario_run
    C9_outputs_are_filtered_pool [OF rev_shuffle_perm scenario_run]
  by (intro conjI)

text \<open>
  \<^bold>\<open>C10\<close> (duplicate identifiers). If two items of the pool have the same identifier
  (all items carrying both label fields, fractions between 0 and 1), the run stops at the
  assertion on the number of assigned identifiers and writes nothing.
\<close>

theorem C10_duplicate_ids_abort:
  assumes "perm_shuffle shuffle" "valid_fracs cfg" "fields_present items"
    "int (length items) < 2 ^ 53" "\<not> distinct (map item_id items)"
  shows "split_pool cfg Random shuffle items = Some (Inl AssertionError)"
proof -
  obtain groups ga tr dv te where f:
    "group_items items [] = Inr groups"
    "group_allocation cfg (int (length items)) groups = Some (Inr ga)"
    "assign_ids shuffle ga (sort_key fst groups) (Random (SEED cfg)) ([], [], []) = Inr (tr, dv, te)"
    "mset tr + mset dv + mset te = mset (map item_id items)"
    using run_facts [OF assms(1,2,3,4), of Random] by blast
  have "int (card (set tr \<union> set dv \<union> set te)) \<noteq> int (length (map item_id items))"
    using assert_iff_distinct [OF f(4)] assms(5) by simp
  then have "assignment cfg Random shuffle items = Some (Inl AssertionError)"
    using assignment_unfold [where Random = Random, OF f(1,2,3)] by simp
  then show ?thesis by (simp add: split_pool_def)
qed

theorem C10_duplicate_ids_abort_witness:
  "perm_shuffle rev_shuffle \<and> valid_fracs default_config \<and> fields_present duplicate_pool \<and>
   int (length duplicate_pool) < 2 ^ 53 \<and> \<not> distinct (map item_id duplicate_pool) \<and>
   split_pool default_config nat rev_shuffle duplicate_pool = Some (Inl AssertionError)"
proof -
  have f: "fields_present duplicate_pool"
    by (simp add: fields_present_def duplicate_pool_def mk_item_def)
  have s: "int (length duplicate_pool) < 2 ^ 53" by (simp add: duplicate_pool_def)
  have d: "\<not> distinct (map item_id duplicate_pool)" by (simp add: duplicate_pool_def mk_item_def)
  show ?thesis
    using rev_shuffle_perm default_config_valid f s d
      C10_duplicate_ids_abort [OF rev_shuffle_perm default_config_valid f s d, of nat]
    by (intro conjI)
qed

end
